theory Spec2Isabelle
  imports Main "HOL-Library.Sublist" "HOL-Library.Multiset"
begin

section \<open>Data model\<close>

text \<open>
  The bot of \<^verbatim>\<open>src/backend/bot.js\<close> keeps, per Telegram user, a session of collected
  files (\<^verbatim>\<open>userFileSequences\<close>, a \<^verbatim>\<open>Map\<close>), sorts them on \<^verbatim>\<open>/esequence\<close> and sends them
  back in batches. A Telegram file object carries an id and, optionally, a name and a size;
  a Telegram message carries the sender and at most a document, a video and an audio.

  File names are JavaScript strings; they are modelled as lists of 8-bit characters, which
  covers every name whose code units are below 256. The two patterns of the source only
  name ASCII characters (and white space).
\<close>

record tg_file =
  file_id :: string
  file_name :: "string option"
  file_size :: "nat option"

record tg_message =
  from_id :: nat
  document :: "tg_file option"
  video :: "tg_file option"
  audio :: "tg_file option"
  caption :: "string option"

datatype fileType = Document | Video | Audio

record fileInfo =
  message :: tg_message
  fileType :: fileType
  fileName :: string
  fileSize :: nat
  timestamp :: nat

text \<open>A thrown JavaScript value: an \<^verbatim>\<open>Error\<close> of a collaborator, or the \<^verbatim>\<open>TypeError\<close> of a
  property read on \<^verbatim>\<open>undefined\<close>. Both carry a message.\<close>

datatype js_error = Error (errMessage: string) | TypeError (errMessage: string)

section \<open>Ordering engine\<close>

subsection \<open>\<^verbatim>\<open>getQualityRank\<close>\<close>

text \<open>
  \<^verbatim>\<open>const qualityOrder = { '480p': 0, '540p': 1, '720p': 2, '1080p': 3, '2160p': 4, '4K': 5 };
  const match = name.match(/(480p|540p|720p|1080p|2160p|4K)/);
  return match ? qualityOrder[ match[1] ] : 99;\<close>

  The pattern has no flags: the search tries every start position from the left and, at
  each position, the alternatives in the order they are written.
\<close>

definition qualityPattern :: "string list" where
  "qualityPattern = [''480p'', ''540p'', ''720p'', ''1080p'', ''2160p'', ''4K'']"

definition qualityOrder :: "string \<Rightarrow> int option" where
  "qualityOrder = map_of
     [(''480p'', 0), (''540p'', 1), (''720p'', 2), (''1080p'', 3), (''2160p'', 4), (''4K'', 5)]"

fun matchQuality :: "string \<Rightarrow> string option" where
  "matchQuality [] = None"
| "matchQuality (c # cs) =
     (case find (\<lambda>t. prefix t (c # cs)) qualityPattern of
        Some t \<Rightarrow> Some t
      | None \<Rightarrow> matchQuality cs)"

text \<open>A captured token is always a key of the table (lemma \<open>matchQuality_in_table\<close>), so
  the inner \<open>None\<close> branch below, where JavaScript would read \<^verbatim>\<open>undefined\<close>, is never taken.\<close>

definition getQualityRank :: "string \<Rightarrow> int" where
  "getQualityRank name =
     (case matchQuality name of
        None \<Rightarrow> 99
      | Some t \<Rightarrow> (case qualityOrder t of Some r \<Rightarrow> r | None \<Rightarrow> 99))"

subsection \<open>\<^verbatim>\<open>getEpisodeNumber\<close>\<close>

text \<open>
  \<^verbatim>\<open>const match = name.match(/(?:E|Ep|Episode|Part)?\s*(\d{1,3})/i);
  return match ? parseInt(match[1]) : 9999;\<close>

  The pattern is matched the way a backtracking engine does it: for each start position
  from the left, first with each alternative of the optional marker and last without the
  marker; then the longest run of white space, giving back one character at a time; then
  as many digits as there are, three at most. Nothing follows the digits, so the first
  success is the match.
\<close>

definition isDigit :: "char \<Rightarrow> bool" where
  "isDigit c = (48 \<le> (of_char c :: nat) \<and> (of_char c :: nat) \<le> 57)"

text \<open>\<^verbatim>\<open>\s\<close> on code units below 256: tab, line feed, vertical tab, form feed, carriage
  return, space and no-break space.\<close>

definition isSpace :: "char \<Rightarrow> bool" where
  "isSpace c = ((of_char c :: nat) \<in> {9, 10, 11, 12, 13, 32, 160})"

text \<open>Flag \<^verbatim>\<open>i\<close> without flag \<^verbatim>\<open>u\<close> compares upper-cased code units, and never lets a
  non-ASCII character match an ASCII one.\<close>

definition toUpperCase :: "char \<Rightarrow> char" where
  "toUpperCase c =
     (if 97 \<le> (of_char c :: nat) \<and> (of_char c :: nat) \<le> 122
      then char_of ((of_char c :: nat) - 32) else c)"

fun matchLiteralCI :: "string \<Rightarrow> string \<Rightarrow> string option" where
  "matchLiteralCI [] s = Some s"
| "matchLiteralCI (p # ps) [] = None"
| "matchLiteralCI (p # ps) (c # cs) =
     (if toUpperCase c = toUpperCase p then matchLiteralCI ps cs else None)"

fun takeDigits :: "nat \<Rightarrow> string \<Rightarrow> string" where
  "takeDigits 0 s = []"
| "takeDigits (Suc n) [] = []"
| "takeDigits (Suc n) (c # cs) = (if isDigit c then c # takeDigits n cs else [])"

definition matchDigits :: "string \<Rightarrow> string option" where
  "matchDigits s = (let d = takeDigits 3 s in if d = [] then None else Some d)"

fun matchSpaces :: "string \<Rightarrow> string option" where
  "matchSpaces [] = matchDigits []"
| "matchSpaces (c # cs) =
     (if isSpace c
      then (case matchSpaces cs of Some d \<Rightarrow> Some d | None \<Rightarrow> matchDigits (c # cs))
      else matchDigits (c # cs))"

definition episodeMarkers :: "string list" where
  "episodeMarkers = [''E'', ''Ep'', ''Episode'', ''Part'']"

fun matchMarkers :: "string list \<Rightarrow> string \<Rightarrow> string option" where
  "matchMarkers [] s = matchSpaces s"
| "matchMarkers (m # ms) s =
     (case matchLiteralCI m s of
        None \<Rightarrow> matchMarkers ms s
      | Some rest \<Rightarrow>
          (case matchSpaces rest of Some d \<Rightarrow> Some d | None \<Rightarrow> matchMarkers ms s))"

fun matchEpisode :: "string \<Rightarrow> string option" where
  "matchEpisode [] = matchMarkers episodeMarkers []"
| "matchEpisode (c # cs) =
     (case matchMarkers episodeMarkers (c # cs) of
        Some d \<Rightarrow> Some d
      | None \<Rightarrow> matchEpisode cs)"

text \<open>What the capture group turns out to hold (lemma \<open>matchEpisode_eq\<close>): the first
  digits of the name, three at most.\<close>

abbreviation firstDigits :: "string \<Rightarrow> string" where
  "firstDigits n \<equiv> takeDigits 3 (dropWhile (\<lambda>c. \<not> isDigit c) n)"

text \<open>\<^verbatim>\<open>parseInt\<close> on a string of decimal digits.\<close>

definition parseInt :: "string \<Rightarrow> int" where
  "parseInt s = foldl (\<lambda>acc c. 10 * acc + (int (of_char c) - 48)) 0 s"

definition getEpisodeNumber :: "string \<Rightarrow> int" where
  "getEpisodeNumber name =
     (case matchEpisode name of None \<Rightarrow> 9999 | Some d \<Rightarrow> parseInt d)"

text \<open>The reading of the specification: the first maximal run of digits that is one to
  three digits long is the episode number. It is used only to exhibit where the source
  differs.\<close>

function digitRuns :: "string \<Rightarrow> string list" where
  "digitRuns [] = []"
| "digitRuns (c # cs) =
     (if isDigit c
      then takeWhile isDigit (c # cs) # digitRuns (dropWhile isDigit cs)
      else digitRuns cs)"
  by pat_completeness auto
termination
  by (relation "measure length") (auto simp: length_dropWhile_le le_imp_less_Suc)

definition firstStandaloneInteger :: "string \<Rightarrow> int" where
  "firstStandaloneInteger name =
     (case find (\<lambda>r. length r \<le> 3) (digitRuns name) of
        None \<Rightarrow> 9999
      | Some r \<Rightarrow> parseInt r)"

subsection \<open>The comparator of \<^verbatim>\<open>endSequence\<close>\<close>

text \<open>
  \<^verbatim>\<open>const fileA = a.message.document || a.message.video || a.message.audio;
  const fileB = b.message.document || b.message.video || b.message.audio;
  const nameA = fileA.file_name || '';
  const nameB = fileB.file_name || '';
  return getQualityRank(nameA) - getQualityRank(nameB) ||
         getEpisodeNumber(nameA) - getEpisodeNumber(nameB) ||
         nameA.localeCompare(nameB);\<close>

  Reading \<^verbatim>\<open>file_name\<close> of a message without any of the three media throws a \<^verbatim>\<open>TypeError\<close>.
  \<^verbatim>\<open>String.prototype.localeCompare\<close> belongs to the platform and depends on its locale; it
  is the parameter \<open>lc\<close>.
\<close>

definition mediaOf :: "tg_message \<Rightarrow> tg_file option" where
  "mediaOf m =
     (case document m of
        Some f \<Rightarrow> Some f
      | None \<Rightarrow> (case video m of Some f \<Rightarrow> Some f | None \<Rightarrow> audio m))"

definition sortName :: "tg_file \<Rightarrow> string" where
  "sortName f = (case file_name f of Some n \<Rightarrow> n | None \<Rightarrow> [])"

definition compareNames :: "(string \<Rightarrow> string \<Rightarrow> int) \<Rightarrow> string \<Rightarrow> string \<Rightarrow> int" where
  "compareNames lc nameA nameB =
     (if getQualityRank nameA - getQualityRank nameB \<noteq> 0
      then getQualityRank nameA - getQualityRank nameB
      else if getEpisodeNumber nameA - getEpisodeNumber nameB \<noteq> 0
      then getEpisodeNumber nameA - getEpisodeNumber nameB
      else lc nameA nameB)"

definition compareFiles ::
  "(string \<Rightarrow> string \<Rightarrow> int) \<Rightarrow> fileInfo \<Rightarrow> fileInfo \<Rightarrow> js_error + int" where
  "compareFiles lc a b =
     (case mediaOf (message a) of
        None \<Rightarrow> Inl (TypeError ''Cannot read properties of undefined'')
      | Some fileA \<Rightarrow>
          (case mediaOf (message b) of
             None \<Rightarrow> Inl (TypeError ''Cannot read properties of undefined'')
           | Some fileB \<Rightarrow> Inr (compareNames lc (sortName fileA) (sortName fileB))))"

subsection \<open>\<^verbatim>\<open>Array.prototype.sort\<close>\<close>

text \<open>
  The language requires \<^verbatim>\<open>sort\<close> to be stable, so with a consistent comparator its result
  is the one stable arrangement in comparator order, whichever algorithm the engine runs.
  The model is the insertion sort that computes this arrangement: an element goes in front
  of the first element it does not exceed. An exception of the comparator leaves \<^verbatim>\<open>sort\<close>.
\<close>

fun insertSorted :: "('a \<Rightarrow> 'a \<Rightarrow> js_error + int) \<Rightarrow> 'a \<Rightarrow> 'a list \<Rightarrow> js_error + 'a list" where
  "insertSorted cmp x [] = Inr [x]"
| "insertSorted cmp x (y # ys) =
     (case cmp x y of
        Inl e \<Rightarrow> Inl e
      | Inr c \<Rightarrow>
          if c \<le> 0 then Inr (x # y # ys)
          else (case insertSorted cmp x ys of Inl e \<Rightarrow> Inl e | Inr r \<Rightarrow> Inr (y # r)))"

fun sortWith :: "('a \<Rightarrow> 'a \<Rightarrow> js_error + int) \<Rightarrow> 'a list \<Rightarrow> js_error + 'a list" where
  "sortWith cmp [] = Inr []"
| "sortWith cmp (x # xs) =
     (case sortWith cmp xs of Inl e \<Rightarrow> Inl e | Inr s \<Rightarrow> insertSorted cmp x s)"

definition sortFiles :: "(string \<Rightarrow> string \<Rightarrow> int) \<Rightarrow> fileInfo list \<Rightarrow> js_error + fileInfo list" where
  "sortFiles lc fs = sortWith (compareFiles lc) fs"

text \<open>A consistent comparison function on strings, as the language requires of
  \<^verbatim>\<open>localeCompare\<close>: the sign flips with the arguments, and "not after" is transitive.\<close>

definition consistent :: "(string \<Rightarrow> string \<Rightarrow> int) \<Rightarrow> bool" where
  "consistent lc \<longleftrightarrow>
     (\<forall>a b. (lc a b < 0) = (0 < lc b a)) \<and>
     (\<forall>a b c. lc a b \<le> 0 \<longrightarrow> lc b c \<le> 0 \<longrightarrow> lc a c \<le> 0)"

text \<open>Comparison by code units, one consistent comparison function; the examples use it
  where a concrete collation is needed.\<close>

definition codeUnit :: "char \<Rightarrow> nat" where
  "codeUnit c = of_char c"

fun codeUnitCompare :: "string \<Rightarrow> string \<Rightarrow> int" where
  "codeUnitCompare [] [] = 0"
| "codeUnitCompare [] (y # ys) = - 1"
| "codeUnitCompare (x # xs) [] = 1"
| "codeUnitCompare (x # xs) (y # ys) =
     (if codeUnit x < codeUnit y then - 1
      else if codeUnit y < codeUnit x then 1
      else codeUnitCompare xs ys)"

text \<open>A message of the given user that carries a document of the given name, and a message
  with a command only.\<close>

definition documentMessage :: "nat \<Rightarrow> string \<Rightarrow> tg_message" where
  "documentMessage u n =
     \<lparr> from_id = u,
       document = Some \<lparr> file_id = n, file_name = Some n, file_size = None \<rparr>,
       video = None, audio = None, caption = None \<rparr>"

definition commandMessage :: "nat \<Rightarrow> tg_message" where
  "commandMessage u = \<lparr> from_id = u, document = None, video = None, audio = None, caption = None \<rparr>"

text \<open>The item that the ingestion stores at time 0 for such a message of user 1.\<close>

definition documentItem :: "string \<Rightarrow> fileInfo" where
  "documentItem n =
     \<lparr> message = documentMessage 1 n,
       fileType = Document, fileName = n, fileSize = 0, timestamp = 0 \<rparr>"

text \<open>Items as the ingestion stores them carry one of the three media; the comparator
  then returns a number, and the following read it.\<close>

definition hasMedia :: "fileInfo \<Rightarrow> bool" where
  "hasMedia f \<longleftrightarrow> mediaOf (message f) \<noteq> None"

definition itemName :: "fileInfo \<Rightarrow> string" where
  "itemName f = (case mediaOf (message f) of Some x \<Rightarrow> sortName x | None \<Rightarrow> [])"

definition inOrder :: "(string \<Rightarrow> string \<Rightarrow> int) \<Rightarrow> fileInfo \<Rightarrow> fileInfo \<Rightarrow> bool" where
  "inOrder lc a b = (case compareFiles lc a b of Inr c \<Rightarrow> c \<le> 0 | Inl e \<Rightarrow> False)"

definition sameKey :: "(string \<Rightarrow> string \<Rightarrow> int) \<Rightarrow> fileInfo \<Rightarrow> fileInfo \<Rightarrow> bool" where
  "sameKey lc a b = (compareFiles lc a b = Inr 0)"


section \<open>Configuration, world and collaborators\<close>

text \<open>
  \<^verbatim>\<open>const CONFIG = { BATCH_SIZE: 50, DELAY_BETWEEN_BATCHES: 100, DELAY_BETWEEN_FILES: 100,
    MAX_RETRIES: 3, RETRY_DELAY: 1000, MAX_FILES_PER_USER: 200, PROGRESS_UPDATE_INTERVAL: 50 };\<close>
\<close>

record config =
  BATCH_SIZE :: nat
  DELAY_BETWEEN_BATCHES :: nat
  DELAY_BETWEEN_FILES :: nat
  MAX_RETRIES :: nat
  RETRY_DELAY :: nat
  MAX_FILES_PER_USER :: nat
  PROGRESS_UPDATE_INTERVAL :: nat

definition CONFIG :: config where
  "CONFIG = \<lparr> BATCH_SIZE = 50, DELAY_BETWEEN_BATCHES = 100, DELAY_BETWEEN_FILES = 100,
              MAX_RETRIES = 3, RETRY_DELAY = 1000, MAX_FILES_PER_USER = 200,
              PROGRESS_UPDATE_INTERVAL = 50 \<rparr>"

text \<open>One entry of \<^verbatim>\<open>userFileSequences\<close>, and one document of the \<^verbatim>\<open>users\<close> collection as far
  as \<^verbatim>\<open>endSequence\<close> reads and writes it. Times are milliseconds.\<close>

record userData =
  files :: "fileInfo list"
  startTime :: nat
  lastActivity :: nat

record userDoc =
  total_sequences :: "nat option"
  last_sequence_date :: "nat option"
  last_sequence_count :: "nat option"

text \<open>The texts the bot sends, one constructor per template of the source, with the values
  the template interpolates. \<open>Summary\<close> carries the total, the successes, the failures, the
  error descriptions shown (five at most) and the number of those left out.\<close>

datatype reply =
    NoActiveSession
  | UnsupportedFileType
  | LimitReached nat
  | FilesCollected nat
  | ProcessingError
  | NoOngoingProcess
  | NoFilesToSequence
  | StartingToSequence nat
  | ProcessingBatch nat nat
  | Summary nat nat nat "string list" nat
  | SequencingError
  | AlreadyActive nat
  | Started nat
  | SessionStatus nat nat nat
  | Canceled nat
  | NoSessionToCancel

text \<open>The calls out of the process: the methods of \<^verbatim>\<open>ctx\<close> (with file id and caption for the
  three senders) and the two operations on the \<^verbatim>\<open>users\<close> collection (with the user id).\<close>

datatype action =
    Reply reply
  | React
  | ReplyWithDocument string string
  | ReplyWithVideo string string
  | ReplyWithAudio string string
  | FindOne nat
  | UpdateOne nat

text \<open>What an observer sees, in order: every call with its outcome (\<open>None\<close> when it
  succeeded, the message of the error it threw otherwise) and every \<^verbatim>\<open>sleep\<close>.\<close>

datatype event = Call action "string option" | Sleep nat

record world =
  userFileSequences :: "nat \<rightharpoonup> userData"
  users :: "nat \<rightharpoonup> userDoc"
  clock :: nat
  calls :: nat
  trace :: "event list"

text \<open>The collaborators decide whether a call succeeds. The environment \<open>env\<close> gives the
  outcome of the \<open>n\<close>-th call of the run from the call itself, so every call can fail or
  succeed on its own. Logging to the console is not modelled. The handlers are modelled as
  running one at a time, each to its end.\<close>

type_synonym env = "nat \<Rightarrow> action \<Rightarrow> string option"

definition call :: "env \<Rightarrow> action \<Rightarrow> world \<Rightarrow> (js_error + unit) \<times> world" where
  "call env a w =
     (let outcome = env (calls w) a;
          w' = w\<lparr> calls := calls w + 1, trace := trace w @ [Call a outcome] \<rparr>
      in (case outcome of None \<Rightarrow> Inr () | Some m \<Rightarrow> Inl (Error m), w'))"

text \<open>\<^verbatim>\<open>const sleep = (ms) => new Promise(resolve => setTimeout(resolve, ms));\<close>\<close>

definition sleep :: "nat \<Rightarrow> world \<Rightarrow> world" where
  "sleep ms w = w\<lparr> clock := clock w + ms, trace := trace w @ [Sleep ms] \<rparr>"

section \<open>Delivery engine\<close>

subsection \<open>\<^verbatim>\<open>retryOperation\<close>\<close>

text \<open>
  \<^verbatim>\<open>for (let attempt = 1; attempt <= maxRetries; attempt++) {
    try { return await operation(); }
    catch (error) {
      if (attempt === maxRetries) { throw error; }
      const backoffDelay = delay * Math.pow(2, attempt - 1);
      await sleep(backoffDelay);
    }
  }\<close>

  A loop that is left without a \<^verbatim>\<open>return\<close> (no attempt allowed) yields \<^verbatim>\<open>undefined\<close>: \<open>None\<close>.
\<close>

function retryLoop ::
  "(world \<Rightarrow> (js_error + 'a) \<times> world) \<Rightarrow> nat \<Rightarrow> nat \<Rightarrow> nat \<Rightarrow> world \<Rightarrow> (js_error + 'a option) \<times> world" where
  "retryLoop operation maxRetries delay attempt w =
     (if attempt \<le> maxRetries then
        (case operation w of
           (Inr v, w1) \<Rightarrow> (Inr (Some v), w1)
         | (Inl error, w1) \<Rightarrow>
             if attempt = maxRetries then (Inl error, w1)
             else retryLoop operation maxRetries delay (attempt + 1)
                    (sleep (delay * 2 ^ (attempt - 1)) w1))
      else (Inr None, w))"
  by pat_completeness auto
termination
  by (relation "measure (\<lambda>(operation, maxRetries, delay, attempt, w). maxRetries + 1 - attempt)") auto

definition retryOperation ::
  "(world \<Rightarrow> (js_error + 'a) \<times> world) \<Rightarrow> nat \<Rightarrow> nat \<Rightarrow> world \<Rightarrow> (js_error + 'a option) \<times> world" where
  "retryOperation operation maxRetries delay w = retryLoop operation maxRetries delay 1 w"

subsection \<open>\<^verbatim>\<open>processBatch\<close>\<close>

text \<open>The operation that \<^verbatim>\<open>processBatch\<close> hands to \<^verbatim>\<open>retryOperation\<close>: one send, by the kind
  of the message, with the caption or the empty string.\<close>

definition sendFile :: "env \<Rightarrow> tg_message \<Rightarrow> tg_file \<Rightarrow> world \<Rightarrow> (js_error + unit) \<times> world" where
  "sendFile env msg file w =
     (let cap = (case caption msg of Some c \<Rightarrow> c | None \<Rightarrow> [])
      in if document msg \<noteq> None then call env (ReplyWithDocument (file_id file) cap) w
         else if video msg \<noteq> None then call env (ReplyWithVideo (file_id file) cap) w
         else if audio msg \<noteq> None then call env (ReplyWithAudio (file_id file) cap) w
         else (Inr (), w))"

record results =
  success :: nat
  failed :: nat
  errors :: "string list"

text \<open>
  The loop \<^verbatim>\<open>for (let i = 0; i < batch.length; i++)\<close>, on the items from index \<open>i\<close> on; \<open>len\<close>
  is \<^verbatim>\<open>batch.length\<close>. An item without media is counted as failed and skipped. Otherwise
  the send runs under \<^verbatim>\<open>retryOperation\<close> with the default limits; after a success the
  counter goes up and, unless the item is the last of the batch, the loop sleeps; after
  the last failure the error is caught, counted and described.
\<close>

fun processBatchLoop ::
  "env \<Rightarrow> nat \<Rightarrow> nat \<Rightarrow> fileInfo list \<Rightarrow> results \<Rightarrow> world \<Rightarrow> results \<times> world" where
  "processBatchLoop env len i [] res w = (res, w)"
| "processBatchLoop env len i (fileInfo # rest) res w =
     (case mediaOf (message fileInfo) of
        None \<Rightarrow> processBatchLoop env len (i + 1) rest (res\<lparr> failed := failed res + 1 \<rparr>) w
      | Some file \<Rightarrow>
          (case retryOperation (sendFile env (message fileInfo) file)
                  (MAX_RETRIES CONFIG) (RETRY_DELAY CONFIG) w of
             (Inr v, w1) \<Rightarrow>
               processBatchLoop env len (i + 1) rest (res\<lparr> success := success res + 1 \<rparr>)
                 (if i < len - 1 then sleep (DELAY_BETWEEN_FILES CONFIG) w1 else w1)
           | (Inl error, w1) \<Rightarrow>
               processBatchLoop env len (i + 1) rest
                 (res\<lparr> failed := failed res + 1,
                       errors := errors res @ [fileName fileInfo @ '': '' @ errMessage error] \<rparr>)
                 w1))"

definition processBatch ::
  "env \<Rightarrow> fileInfo list \<Rightarrow> nat \<Rightarrow> nat \<Rightarrow> world \<Rightarrow> results \<times> world" where
  "processBatch env batch batchIndex totalBatches w =
     processBatchLoop env (length batch) 0 batch \<lparr> success = 0, failed = 0, errors = [] \<rparr> w"

subsection \<open>The batches of \<^verbatim>\<open>endSequence\<close>\<close>

text \<open>
  \<^verbatim>\<open>for (let i = 0; i < userData.files.length; i += CONFIG.BATCH_SIZE) {
    batches.push(userData.files.slice(i, i + CONFIG.BATCH_SIZE));
  }\<close>
\<close>

function makeBatches :: "fileInfo list \<Rightarrow> nat \<Rightarrow> fileInfo list list" where
  "makeBatches fs i =
     (if i < length fs
      then take (BATCH_SIZE CONFIG) (drop i fs) # makeBatches fs (i + BATCH_SIZE CONFIG)
      else [])"
  by pat_completeness auto
termination
  by (relation "measure (\<lambda>(fs, i). length fs - i)") (auto simp: CONFIG_def)

text \<open>
  The loop over the batches, on the batches from index \<open>i\<close> on; \<open>totalBatches\<close>
  is \<^verbatim>\<open>batches.length\<close>. The progress text is sent when there is more than one batch, and an
  error of that call leaves the loop. The three accumulators are \<^verbatim>\<open>totalSuccess\<close>,
  \<^verbatim>\<open>totalFailed\<close> and \<^verbatim>\<open>allErrors\<close>.
\<close>

fun processBatches ::
  "env \<Rightarrow> nat \<Rightarrow> nat \<Rightarrow> fileInfo list list \<Rightarrow> nat \<times> nat \<times> string list \<Rightarrow> world
   \<Rightarrow> (js_error + nat \<times> nat \<times> string list) \<times> world" where
  "processBatches env totalBatches i [] acc w = (Inr acc, w)"
| "processBatches env totalBatches i (batch # rest) (totalSuccess, totalFailed, allErrors) w =
     (case (if 1 < totalBatches then call env (Reply (ProcessingBatch (i + 1) totalBatches)) w
            else (Inr (), w)) of
        (Inl error, w1) \<Rightarrow> (Inl error, w1)
      | (Inr u, w1) \<Rightarrow>
          (case processBatch env batch i totalBatches w1 of
             (res, w2) \<Rightarrow>
               processBatches env totalBatches (i + 1) rest
                 (totalSuccess + success res, totalFailed + failed res, allErrors @ errors res)
                 (if i < totalBatches - 1 then sleep (DELAY_BETWEEN_BATCHES CONFIG) w2 else w2)))"

subsection \<open>The statistics update\<close>

text \<open>The operation of the second \<^verbatim>\<open>retryOperation\<close> of \<^verbatim>\<open>endSequence\<close>: read the user's
  document, add the successes to its total, and write the three fields back. \<^verbatim>\<open>updateOne\<close>
  without \<^verbatim>\<open>upsert\<close> changes nothing when the user has no document.\<close>

definition updateStatistics :: "env \<Rightarrow> nat \<Rightarrow> nat \<Rightarrow> world \<Rightarrow> (js_error + unit) \<times> world" where
  "updateStatistics env userId totalSuccess w =
     (case call env (FindOne userId) w of
        (Inl error, w1) \<Rightarrow> (Inl error, w1)
      | (Inr u, w1) \<Rightarrow>
          (let totalSequences =
                 (case users w1 userId of
                    None \<Rightarrow> 0
                  | Some userDoc \<Rightarrow> (case total_sequences userDoc of None \<Rightarrow> 0 | Some n \<Rightarrow> n))
                 + totalSuccess
           in case call env (UpdateOne userId) w1 of
                (Inl error, w2) \<Rightarrow> (Inl error, w2)
              | (Inr u', w2) \<Rightarrow>
                  (Inr (),
                   (case users w2 userId of
                      None \<Rightarrow> w2
                    | Some userDoc \<Rightarrow>
                        w2\<lparr> users := (users w2)(userId \<mapsto>
                              userDoc\<lparr> total_sequences := Some totalSequences,
                                       last_sequence_date := Some (clock w2),
                                       last_sequence_count := Some totalSuccess \<rparr>) \<rparr>))))"

section \<open>Session manager\<close>

subsection \<open>\<^verbatim>\<open>endSequence\<close>\<close>

text \<open>
  The body of the \<^verbatim>\<open>try\<close> block: sort in place, cut into batches, deliver, send the summary,
  update the statistics. An error of the statistics update is caught inside the block.
  When the comparator throws, the array is left as the engine had it at that moment; the
  model leaves it as it was, and the session is removed before anything reads it.
\<close>

definition sequencing ::
  "env \<Rightarrow> (string \<Rightarrow> string \<Rightarrow> int) \<Rightarrow> nat \<Rightarrow> userData \<Rightarrow> nat \<Rightarrow> world \<Rightarrow> (js_error + unit) \<times> world" where
  "sequencing env lc userId userData totalFiles w =
     (case sortFiles lc (files userData) of
        Inl error \<Rightarrow> (Inl error, w)
      | Inr sortedFiles \<Rightarrow>
          (let w0 = w\<lparr> userFileSequences :=
                        (userFileSequences w)(userId \<mapsto> userData\<lparr> files := sortedFiles \<rparr>) \<rparr>;
               batches = makeBatches sortedFiles 0
           in case processBatches env (length batches) 0 batches (0, 0, []) w0 of
                (Inl error, w1) \<Rightarrow> (Inl error, w1)
              | (Inr (totalSuccess, totalFailed, allErrors), w1) \<Rightarrow>
                  (case call env (Reply (Summary totalFiles totalSuccess totalFailed
                                           (take 5 allErrors) (length allErrors - 5))) w1 of
                     (Inl error, w2) \<Rightarrow> (Inl error, w2)
                   | (Inr u, w2) \<Rightarrow>
                       (case retryOperation (updateStatistics env userId totalSuccess)
                               (MAX_RETRIES CONFIG) (RETRY_DELAY CONFIG) w2 of
                          (r, w3) \<Rightarrow> (Inr (), w3)))))"

text \<open>\<^verbatim>\<open>userFileSequences.delete(userId)\<close>\<close>

definition deleteSession :: "nat \<Rightarrow> world \<Rightarrow> world" where
  "deleteSession userId w = w\<lparr> userFileSequences := (userFileSequences w)(userId := None) \<rparr>"

text \<open>
  \<^verbatim>\<open>endSequence\<close>: without a session, one text. With an empty session, one text and then the
  removal. Otherwise the starting text, then \<^verbatim>\<open>try { ... } catch { reply } finally { delete }\<close>:
  the \<^verbatim>\<open>finally\<close> block also runs when the text of the \<^verbatim>\<open>catch\<close> block fails, and that error
  then leaves the function. An error of a text outside the \<^verbatim>\<open>try\<close> leaves the function
  at once.
\<close>

definition endSequence ::
  "env \<Rightarrow> (string \<Rightarrow> string \<Rightarrow> int) \<Rightarrow> tg_message \<Rightarrow> world \<Rightarrow> (js_error + unit) \<times> world" where
  "endSequence env lc msg w =
     (let userId = from_id msg
      in case userFileSequences w userId of
           None \<Rightarrow> call env (Reply NoOngoingProcess) w
         | Some userData \<Rightarrow>
             if length (files userData) = 0 then
               (case call env (Reply NoFilesToSequence) w of
                  (Inl error, w1) \<Rightarrow> (Inl error, w1)
                | (Inr u, w1) \<Rightarrow> (Inr (), deleteSession userId w1))
             else
               (let totalFiles = length (files userData)
                in case call env (Reply (StartingToSequence totalFiles)) w of
                     (Inl error, w1) \<Rightarrow> (Inl error, w1)
                   | (Inr u, w1) \<Rightarrow>
                       (case sequencing env lc userId userData totalFiles w1 of
                          (Inr u', w2) \<Rightarrow> (Inr (), deleteSession userId w2)
                        | (Inl error, w2) \<Rightarrow>
                            (case call env (Reply SequencingError) w2 of
                               (r, w3) \<Rightarrow> (r, deleteSession userId w3)))))"

subsection \<open>\<^verbatim>\<open>processFileSequence\<close>\<close>

text \<open>\<^verbatim>\<open>ctx.message[fileType]\<close>, the name of a file type, and a number in decimal for the
  default name \<^verbatim>\<open>`${fileType}_${Date.now()}`\<close>.\<close>

definition fileOf :: "fileType \<Rightarrow> tg_message \<Rightarrow> tg_file option" where
  "fileOf t m = (case t of Document \<Rightarrow> document m | Video \<Rightarrow> video m | Audio \<Rightarrow> audio m)"

definition fileTypeName :: "fileType \<Rightarrow> string" where
  "fileTypeName t = (case t of Document \<Rightarrow> ''document'' | Video \<Rightarrow> ''video'' | Audio \<Rightarrow> ''audio'')"

fun decimal :: "nat \<Rightarrow> string" where
  "decimal n =
     (if n < 10 then [char_of (48 + n)] else decimal (n div 10) @ [char_of (48 + n mod 10)])"

text \<open>
  The three refusals come first, each a text and nothing else. Otherwise the item is
  appended and the activity time refreshed; then the count is reported, or the message
  reacted to. An error of that last call is caught and answered with one more text.
\<close>

definition processFileSequence ::
  "env \<Rightarrow> tg_message \<Rightarrow> fileType \<Rightarrow> world \<Rightarrow> (js_error + unit) \<times> world" where
  "processFileSequence env msg kind w =
     (let userId = from_id msg
      in case userFileSequences w userId of
           None \<Rightarrow> call env (Reply NoActiveSession) w
         | Some userData \<Rightarrow>
             (case fileOf kind msg of
                None \<Rightarrow> call env (Reply UnsupportedFileType) w
              | Some file \<Rightarrow>
                  if length (files userData) \<ge> MAX_FILES_PER_USER CONFIG then
                    call env (Reply (LimitReached (MAX_FILES_PER_USER CONFIG))) w
                  else
                    (let fileInfo =
                           \<lparr> message = msg, fileType = kind,
                             fileName =
                               (case file_name file of
                                  None \<Rightarrow> fileTypeName kind @ ''_'' @ decimal (clock w)
                                | Some n \<Rightarrow>
                                    if n = [] then fileTypeName kind @ ''_'' @ decimal (clock w)
                                    else n),
                             fileSize = (case file_size file of None \<Rightarrow> 0 | Some s \<Rightarrow> s),
                             timestamp = clock w \<rparr>;
                         w1 = w\<lparr> userFileSequences := (userFileSequences w)(userId \<mapsto>
                                  userData\<lparr> files := files userData @ [fileInfo],
                                            lastActivity := clock w \<rparr>) \<rparr>;
                         fileCount = length (files userData) + 1
                     in case (if fileCount mod PROGRESS_UPDATE_INTERVAL CONFIG = 0 \<or> fileCount \<le> 5
                              then call env (Reply (FilesCollected fileCount)) w1
                              else call env React w1) of
                          (Inr u, w2) \<Rightarrow> (Inr (), w2)
                        | (Inl error, w2) \<Rightarrow> call env (Reply ProcessingError) w2)))"

subsection \<open>The commands\<close>

text \<open>\<^verbatim>\<open>bot.command('ssequence', ...)\<close>\<close>

definition ssequence :: "env \<Rightarrow> tg_message \<Rightarrow> world \<Rightarrow> (js_error + unit) \<times> world" where
  "ssequence env msg w =
     (let userId = from_id msg
      in case userFileSequences w userId of
           Some userData \<Rightarrow> call env (Reply (AlreadyActive (length (files userData)))) w
         | None \<Rightarrow>
             call env (Reply (Started (MAX_FILES_PER_USER CONFIG)))
               (w\<lparr> userFileSequences := (userFileSequences w)(userId \<mapsto>
                      \<lparr> files = [], startTime = clock w, lastActivity = clock w \<rparr>) \<rparr>))"

text \<open>\<^verbatim>\<open>bot.command('status', ...)\<close>; the duration is in seconds, rounded.\<close>

definition status :: "env \<Rightarrow> tg_message \<Rightarrow> world \<Rightarrow> (js_error + unit) \<times> world" where
  "status env msg w =
     (case userFileSequences w (from_id msg) of
        Some userData \<Rightarrow>
          call env (Reply (SessionStatus (length (files userData)) (MAX_FILES_PER_USER CONFIG)
                             ((clock w - startTime userData + 500) div 1000))) w
      | None \<Rightarrow> call env (Reply NoActiveSession) w)"

text \<open>\<^verbatim>\<open>bot.command('cancel', ...)\<close>\<close>

definition cancel :: "env \<Rightarrow> tg_message \<Rightarrow> world \<Rightarrow> (js_error + unit) \<times> world" where
  "cancel env msg w =
     (let userId = from_id msg
      in case userFileSequences w userId of
           Some userData \<Rightarrow>
             call env (Reply (Canceled (length (files userData)))) (deleteSession userId w)
         | None \<Rightarrow> call env (Reply NoSessionToCancel) w)"

text \<open>\<^verbatim>\<open>cleanupInactiveSessions\<close>, with \<^verbatim>\<open>TIMEOUT = 30 * 60 * 1000\<close>.\<close>

definition TIMEOUT :: nat where
  "TIMEOUT = 30 * 60 * 1000"

definition cleanupInactiveSessions :: "world \<Rightarrow> world" where
  "cleanupInactiveSessions w =
     w\<lparr> userFileSequences :=
          (\<lambda>userId. case userFileSequences w userId of
                       None \<Rightarrow> None
                     | Some userData \<Rightarrow>
                         if clock w - lastActivity userData > TIMEOUT then None
                         else Some userData) \<rparr>"

subsection \<open>Runs of the bot\<close>

text \<open>What the bot reacts to: the commands, a message with a document, a video or an
  audio, the timer of the cleanup, and time passing. A run handles a list of them from
  the state in which the process starts. An error that leaves a handler goes to the
  framework; the state stays as the handler left it.\<close>

datatype input =
    OnSsequence tg_message
  | OnStatus tg_message
  | OnFile fileType tg_message
  | OnEsequence tg_message
  | OnCancel tg_message
  | OnCleanupTimer
  | Elapse nat

fun handle :: "env \<Rightarrow> (string \<Rightarrow> string \<Rightarrow> int) \<Rightarrow> world \<Rightarrow> input \<Rightarrow> world" where
  "handle env lc w (OnSsequence msg) = snd (ssequence env msg w)"
| "handle env lc w (OnStatus msg) = snd (status env msg w)"
| "handle env lc w (OnFile t msg) = snd (processFileSequence env msg t w)"
| "handle env lc w (OnEsequence msg) = snd (endSequence env lc msg w)"
| "handle env lc w (OnCancel msg) = snd (cancel env msg w)"
| "handle env lc w OnCleanupTimer = cleanupInactiveSessions w"
| "handle env lc w (Elapse ms) = w\<lparr> clock := clock w + ms \<rparr>"

definition startWorld :: world where
  "startWorld = \<lparr> userFileSequences = Map.empty, users = Map.empty, clock = 0, calls = 0, trace = [] \<rparr>"

definition run :: "env \<Rightarrow> (string \<Rightarrow> string \<Rightarrow> int) \<Rightarrow> input list \<Rightarrow> world" where
  "run env lc inputs = foldl (handle env lc) startWorld inputs"


section \<open>The delivery schedule\<close>

text \<open>
  The events of a delivery, written out from what happened to each item. This is the
  schedule that the delivery engine is compared with; the lemmas \<open>processBatchLoop_events\<close>
  and \<open>processBatches_events\<close> show that the loops of the source produce it.

  What happened to an item: it was delivered, after the failed attempts whose error
  messages are listed; or every attempt failed, with the listed messages; or it had no
  media and was skipped.
\<close>

datatype outcome = Delivered "string list" | GaveUp "string list" | Skipped

text \<open>The send of a message, by its kind: the call that \<open>sendFile\<close> makes.\<close>

definition sendActionOf :: "tg_message \<Rightarrow> action option" where
  "sendActionOf m =
     (let cap = (case caption m of Some c \<Rightarrow> c | None \<Rightarrow> [])
      in case document m of
           Some f \<Rightarrow> Some (ReplyWithDocument (file_id f) cap)
         | None \<Rightarrow>
             (case video m of
                Some f \<Rightarrow> Some (ReplyWithVideo (file_id f) cap)
              | None \<Rightarrow>
                  (case audio m of
                     Some f \<Rightarrow> Some (ReplyWithAudio (file_id f) cap)
                   | None \<Rightarrow> None)))"

text \<open>Failed attempts, numbered from \<open>k\<close>: each is followed by a pause of the base delay
  times two to the power of its number less one.\<close>

fun failedAttempts :: "action \<Rightarrow> nat \<Rightarrow> nat \<Rightarrow> string list \<Rightarrow> event list" where
  "failedAttempts a d k [] = []"
| "failedAttempts a d k (m # ms) =
     Call a (Some m) # Sleep (d * 2 ^ (k - 1)) # failedAttempts a d (Suc k) ms"

text \<open>The attempts for one item: a delivery ends with the successful call; a given-up item
  ends with its last failed call, and no pause follows that one.\<close>

definition attempts :: "action \<Rightarrow> outcome \<Rightarrow> event list" where
  "attempts a oc =
     (case oc of
        Delivered ms \<Rightarrow> failedAttempts a (RETRY_DELAY CONFIG) 1 ms @ [Call a None]
      | GaveUp ms \<Rightarrow>
          failedAttempts a (RETRY_DELAY CONFIG) 1 (butlast ms) @ [Call a (Some (last ms))]
      | Skipped \<Rightarrow> [])"

definition itemEvents :: "fileInfo \<Rightarrow> outcome \<Rightarrow> event list" where
  "itemEvents x oc = (case sendActionOf (message x) of None \<Rightarrow> [] | Some a \<Rightarrow> attempts a oc)"

text \<open>An outcome fits an item: fewer failures than attempts allowed before a delivery, as
  many failures as attempts allowed when given up, skipped exactly without media.\<close>

definition validOutcome :: "fileInfo \<Rightarrow> outcome \<Rightarrow> bool" where
  "validOutcome x oc =
     (case oc of
        Delivered ms \<Rightarrow> hasMedia x \<and> length ms < MAX_RETRIES CONFIG
      | GaveUp ms \<Rightarrow> hasMedia x \<and> length ms = MAX_RETRIES CONFIG
      | Skipped \<Rightarrow> \<not> hasMedia x)"

definition isDelivered :: "outcome \<Rightarrow> bool" where
  "isDelivered oc = (case oc of Delivered ms \<Rightarrow> True | GaveUp ms \<Rightarrow> False | Skipped \<Rightarrow> False)"

text \<open>The counters after one item.\<close>

definition tallyItem :: "results \<Rightarrow> fileInfo \<times> outcome \<Rightarrow> results" where
  "tallyItem res xo =
     (case snd xo of
        Delivered ms \<Rightarrow> res\<lparr> success := success res + 1 \<rparr>
      | GaveUp ms \<Rightarrow>
          res\<lparr> failed := failed res + 1,
               errors := errors res @ [fileName (fst xo) @ '': '' @ last ms] \<rparr>
      | Skipped \<Rightarrow> res\<lparr> failed := failed res + 1 \<rparr>)"

text \<open>One batch of \<open>len\<close> items, from the item at index \<open>i\<close> on: the attempts for each item in
  turn; a pacing pause after each delivered item that is not the last of the batch.\<close>

fun batchEvents :: "nat \<Rightarrow> nat \<Rightarrow> (fileInfo \<times> outcome) list \<Rightarrow> event list" where
  "batchEvents len i [] = []"
| "batchEvents len i ((x, oc) # rest) =
     itemEvents x oc
     @ (if isDelivered oc \<and> i < len - 1 then [Sleep (DELAY_BETWEEN_FILES CONFIG)] else [])
     @ batchEvents len (Suc i) rest"

text \<open>A delivery in \<open>n\<close> batches, from the batch at index \<open>k\<close> on: the progress text when
  there is more than one batch, the batch, a pause unless the batch is the last.\<close>

fun deliveryEvents :: "nat \<Rightarrow> nat \<Rightarrow> (fileInfo \<times> outcome) list list \<Rightarrow> event list" where
  "deliveryEvents n k [] = []"
| "deliveryEvents n k (b # rest) =
     (if 1 < n then [Call (Reply (ProcessingBatch (Suc k) n)) None] else [])
     @ batchEvents (length b) 0 b
     @ (if k < n - 1 then [Sleep (DELAY_BETWEEN_BATCHES CONFIG)] else [])
     @ deliveryEvents n (Suc k) rest"

text \<open>The three totals of \<^verbatim>\<open>endSequence\<close> after the given batches.\<close>

definition batchResults :: "(fileInfo \<times> outcome) list \<Rightarrow> results" where
  "batchResults b = foldl tallyItem \<lparr> success = 0, failed = 0, errors = [] \<rparr> b"

fun totals ::
  "nat \<times> nat \<times> string list \<Rightarrow> (fileInfo \<times> outcome) list list \<Rightarrow> nat \<times> nat \<times> string list" where
  "totals acc [] = acc"
| "totals (s, f, es) (b # rest) =
     totals (s + success (batchResults b), f + failed (batchResults b),
             es @ errors (batchResults b)) rest"

text \<open>An attempt is a call; the pauses between attempts are not.\<close>

definition isCall :: "event \<Rightarrow> bool" where
  "isCall e = (case e of Call a r \<Rightarrow> True | Sleep ms \<Rightarrow> False)"

text \<open>What holds of the session store throughout (lemma \<open>run_storeOK\<close>): no session holds
  more items than the limit, and every stored item carries media.\<close>

definition storeOK :: "world \<Rightarrow> bool" where
  "storeOK w \<longleftrightarrow>
     (\<forall>u ud. userFileSequences w u = Some ud \<longrightarrow>
        length (files ud) \<le> MAX_FILES_PER_USER CONFIG \<and> (\<forall>x \<in> set (files ud). hasMedia x))"

text \<open>An environment in which the first \<open>k\<close> calls of a run fail and all later ones succeed,
  and one in which every send fails and everything else succeeds.\<close>

definition failingFirst :: "nat \<Rightarrow> env" where
  "failingFirst k n a = (if n < k then Some ''unavailable'' else None)"

definition failingSends :: env where
  "failingSends n a =
     (case a of
        ReplyWithDocument i c \<Rightarrow> Some ''unavailable''
      | ReplyWithVideo i c \<Rightarrow> Some ''unavailable''
      | ReplyWithAudio i c \<Rightarrow> Some ''unavailable''
      | _ \<Rightarrow> None)"

text \<open>An environment that refuses every send of the file with the given id, and one that
  refuses the given text; everything else succeeds.\<close>

definition failingFile :: "string \<Rightarrow> env" where
  "failingFile i n a =
     (case a of
        ReplyWithDocument j c \<Rightarrow> if j = i then Some ''unavailable'' else None
      | ReplyWithVideo j c \<Rightarrow> if j = i then Some ''unavailable'' else None
      | ReplyWithAudio j c \<Rightarrow> if j = i then Some ''unavailable'' else None
      | _ \<Rightarrow> None)"

definition failingReply :: "reply \<Rightarrow> env" where
  "failingReply r n a = (if a = Reply r then Some ''unavailable'' else None)"


section \<open>Properties of the ordering engine\<close>

subsection \<open>Quality rank\<close>







subsection \<open>Episode number\<close>

lemma space_not_digit: "isSpace c \<Longrightarrow> \<not> isDigit c"
  by (auto simp: isSpace_def isDigit_def)

lemma takeDigits_Nil [simp]: "takeDigits k [] = []"
  by (cases k) auto

lemma takeDigits_Nil_iff: "takeDigits (Suc n) s = [] \<longleftrightarrow> (case s of [] \<Rightarrow> True | c # _ \<Rightarrow> \<not> isDigit c)"
  by (cases s) auto

lemma matchDigits_Some:
  "matchDigits s = Some d \<longleftrightarrow> (\<exists>c cs. s = c # cs \<and> isDigit c \<and> d = takeDigits 3 s)"
  by (cases s) (auto simp: matchDigits_def Let_def numeral_3_eq_3)

lemma matchDigits_None: "matchDigits s = None \<longleftrightarrow> (case s of [] \<Rightarrow> True | c # _ \<Rightarrow> \<not> isDigit c)"
  by (cases s) (auto simp: matchDigits_def Let_def numeral_3_eq_3)

lemma matchSpaces_Some:
  "matchSpaces s = Some d \<Longrightarrow> d = firstDigits s \<and> d \<noteq> []"
proof (induction s)
  case Nil
  then show ?case by (simp add: matchDigits_def)
next
  case (Cons c cs)
  show ?case
  proof (cases "isSpace c")
    case True
    then have nd: "\<not> isDigit c" by (rule space_not_digit)
    then have "matchDigits (c # cs) = None" by (simp add: matchDigits_None)
    with Cons.prems True have "matchSpaces cs = Some d" by (simp split: option.splits)
    from Cons.IH[OF this] nd show ?thesis by auto
  next
    case False
    with Cons.prems have "matchDigits (c # cs) = Some d" by simp
    then show ?thesis by (auto simp: matchDigits_Some numeral_3_eq_3)
  qed
qed

lemma matchSpaces_digit: "isDigit c \<Longrightarrow> matchSpaces (c # cs) = Some (takeDigits 3 (c # cs))"
  using space_not_digit[of c] by (auto simp: matchDigits_def Let_def numeral_3_eq_3)

lemma digit_toUpperCase: "isDigit c \<Longrightarrow> toUpperCase c = c"
  by (simp add: isDigit_def toUpperCase_def)

lemma matchLiteralCI_Some:
  "matchLiteralCI m s = Some rest \<Longrightarrow> \<forall>p \<in> set m. \<not> isDigit (toUpperCase p) \<Longrightarrow>
   \<exists>pre. s = pre @ rest \<and> (\<forall>c \<in> set pre. \<not> isDigit c)"
proof (induction m s rule: matchLiteralCI.induct)
  case (1 s)
  then show ?case by simp
next
  case (2 p ps)
  then show ?case by simp
next
  case (3 p ps c cs)
  from "3.prems" have eq: "toUpperCase c = toUpperCase p" and r: "matchLiteralCI ps cs = Some rest"
    by (auto split: if_splits)
  from "3.IH"[OF eq r] "3.prems"(2) obtain pre where pre: "cs = pre @ rest" "\<forall>c \<in> set pre. \<not> isDigit c"
    by auto
  have "\<not> isDigit c" using eq "3.prems"(2) digit_toUpperCase[of c] by auto
  with pre have "c # cs = (c # pre) @ rest \<and> (\<forall>x \<in> set (c # pre). \<not> isDigit x)" by simp
  then show ?case by blast
qed

lemma dropWhile_nondigit_prefix:
  "\<forall>c \<in> set pre. \<not> isDigit c \<Longrightarrow>
   dropWhile (\<lambda>c. \<not> isDigit c) (pre @ rest) = dropWhile (\<lambda>c. \<not> isDigit c) rest"
  by (induction pre) auto

lemma matchMarkers_Some:
  "matchMarkers ms s = Some d \<Longrightarrow> \<forall>m \<in> set ms. \<forall>p \<in> set m. \<not> isDigit (toUpperCase p) \<Longrightarrow>
   d = firstDigits s \<and> d \<noteq> []"
proof (induction ms)
  case Nil
  then show ?case using matchSpaces_Some by simp
next
  case (Cons m ms)
  show ?case
  proof (cases "matchLiteralCI m s")
    case None
    with Cons.prems have "matchMarkers ms s = Some d" by simp
    from Cons.IH[OF this] Cons.prems(2) show ?thesis by auto
  next
    case (Some rest)
    show ?thesis
    proof (cases "matchSpaces rest")
      case None
      with Some Cons.prems have "matchMarkers ms s = Some d" by simp
      from Cons.IH[OF this] Cons.prems(2) show ?thesis by auto
    next
      case (Some d')
      with \<open>matchLiteralCI m s = Some rest\<close> Cons.prems have "d' = d" by simp
      moreover from \<open>matchLiteralCI m s = Some rest\<close> Cons.prems(2)
      obtain pre where "s = pre @ rest" "\<forall>c \<in> set pre. \<not> isDigit c"
        using matchLiteralCI_Some[of m s rest] by auto
      ultimately show ?thesis
        using matchSpaces_Some[OF Some] by (auto simp: dropWhile_nondigit_prefix)
    qed
  qed
qed

lemma matchMarkers_digit: "isDigit c \<Longrightarrow> \<exists>d. matchMarkers ms (c # cs) = Some d"
  by (induction ms) (auto simp: matchSpaces_digit simp del: matchSpaces.simps split: option.splits)

lemma markers_no_digit: "\<forall>m \<in> set episodeMarkers. \<forall>p \<in> set m. \<not> isDigit (toUpperCase p)"
  by (simp add: episodeMarkers_def isDigit_def toUpperCase_def)

lemma matchEpisode_eq:
  "matchEpisode n =
     (if \<exists>c \<in> set n. isDigit c then Some (firstDigits n) else None)"
proof (induction n)
  case Nil
  show ?case by (simp add: episodeMarkers_def matchDigits_def)
next
  case (Cons c cs)
  show ?case
  proof (cases "matchMarkers episodeMarkers (c # cs)")
    case None
    then have "\<not> isDigit c" using matchMarkers_digit[of c episodeMarkers cs] by auto
    with None Cons.IH show ?thesis by simp
  next
    case (Some d)
    from matchMarkers_Some[OF Some markers_no_digit]
    have d: "d = firstDigits (c # cs)" "d \<noteq> []" by auto
    have "\<exists>x \<in> set (c # cs). isDigit x"
    proof (rule ccontr)
      assume "\<not> ?thesis"
      then have "dropWhile (\<lambda>c. \<not> isDigit c) (c # cs) = []" by (simp add: dropWhile_eq_Nil_conv)
      with d show False by (simp add: numeral_3_eq_3)
    qed
    with Some d show ?thesis by simp
  qed
qed

lemma takeDigits_digits: "\<forall>c \<in> set (takeDigits k s). isDigit c"
  by (induction k s rule: takeDigits.induct) auto

lemma length_takeDigits: "length (takeDigits k s) \<le> k"
  by (induction k s rule: takeDigits.induct) auto

lemma parseInt_snoc: "parseInt (d @ [c]) = 10 * parseInt d + (int (of_char c) - 48)"
  by (simp add: parseInt_def)

lemma parseInt_bounds:
  "\<forall>c \<in> set d. isDigit c \<Longrightarrow> 0 \<le> parseInt d \<and> parseInt d < 10 ^ length d"
proof (induction d rule: rev_induct)
  case Nil
  show ?case by (simp add: parseInt_def)
next
  case (snoc c d)
  then have ih: "0 \<le> parseInt d" "parseInt d < 10 ^ length d" by auto
  from snoc.prems have "48 \<le> (of_char c :: nat)" "(of_char c :: nat) \<le> 57"
    by (auto simp: isDigit_def)
  then have dg: "0 \<le> int (of_char c) - 48" "int (of_char c) - 48 \<le> 9" by auto
  from ih(2) have "parseInt d + 1 \<le> 10 ^ length d" by simp
  then have "10 * (parseInt d + 1) \<le> 10 * 10 ^ length d" by (rule mult_left_mono) simp
  with ih dg show ?case by (simp add: parseInt_snoc)
qed

lemma getEpisodeNumber_digits:
  "\<exists>c \<in> set n. isDigit c \<Longrightarrow> getEpisodeNumber n = parseInt (firstDigits n)"
  by (simp add: getEpisodeNumber_def matchEpisode_eq)

lemma getEpisodeNumber_no_digit:
  "\<not> (\<exists>c \<in> set n. isDigit c) \<Longrightarrow> getEpisodeNumber n = 9999"
  by (simp add: getEpisodeNumber_def matchEpisode_eq)

lemma getEpisodeNumber_range:
  assumes "\<exists>c \<in> set n. isDigit c"
  shows "0 \<le> getEpisodeNumber n \<and> getEpisodeNumber n \<le> 999"
proof -
  let ?d = "firstDigits n"
  have "0 \<le> parseInt ?d \<and> parseInt ?d < 10 ^ length ?d"
    by (rule parseInt_bounds) (rule takeDigits_digits)
  moreover have "(10::int) ^ length ?d \<le> 10 ^ 3"
    by (rule power_increasing) (simp_all add: length_takeDigits)
  ultimately show ?thesis using assms by (simp add: getEpisodeNumber_digits)
qed

subsection \<open>Comparator and sort\<close>



lemma compareNames_le_iff:
  "compareNames lc a b \<le> 0 \<longleftrightarrow>
     getQualityRank a < getQualityRank b \<or>
     (getQualityRank a = getQualityRank b \<and>
       (getEpisodeNumber a < getEpisodeNumber b \<or>
        (getEpisodeNumber a = getEpisodeNumber b \<and> lc a b \<le> 0)))"
  by (auto simp: compareNames_def)

lemma consistent_flip: "consistent lc \<Longrightarrow> (lc a b < 0) = (0 < lc b a)"
  unfolding consistent_def by blast

lemma consistent_total: "consistent lc \<Longrightarrow> lc a b \<le> 0 \<or> lc b a \<le> 0"
  using consistent_flip[of lc b a] by linarith

lemma consistent_sym0: "consistent lc \<Longrightarrow> lc a b = 0 \<Longrightarrow> lc b a = 0"
  using consistent_flip[of lc b a] consistent_flip[of lc a b] by linarith

lemma consistent_trans: "consistent lc \<Longrightarrow> lc a b \<le> 0 \<Longrightarrow> lc b c \<le> 0 \<Longrightarrow> lc a c \<le> 0"
  unfolding consistent_def by blast

lemma compareNames_total:
  "consistent lc \<Longrightarrow> compareNames lc a b \<le> 0 \<or> compareNames lc b a \<le> 0"
  using consistent_total[of lc a b] by (auto simp: compareNames_le_iff)

lemma compareNames_trans:
  assumes "consistent lc" "compareNames lc a b \<le> 0" "compareNames lc b c \<le> 0"
  shows "compareNames lc a c \<le> 0"
  using assms(2,3) consistent_trans[OF assms(1), of a b c]
  by (auto simp: compareNames_le_iff)

lemma compareFiles_media:
  "hasMedia a \<Longrightarrow> hasMedia b \<Longrightarrow>
   compareFiles lc a b = Inr (compareNames lc (itemName a) (itemName b))"
  by (auto simp: compareFiles_def hasMedia_def itemName_def)

lemma inOrder_media:
  "hasMedia a \<Longrightarrow> hasMedia b \<Longrightarrow> inOrder lc a b \<longleftrightarrow> compareNames lc (itemName a) (itemName b) \<le> 0"
  by (simp add: inOrder_def compareFiles_media)

lemma insertSorted_media:
  assumes "hasMedia x" "\<forall>y \<in> set ys. hasMedia y"
  shows "\<exists>r. insertSorted (compareFiles lc) x ys = Inr r \<and> mset r = add_mset x (mset ys)"
  using assms(2)
proof (induction ys)
  case Nil
  show ?case by simp
next
  case (Cons y ys)
  then obtain r where r: "insertSorted (compareFiles lc) x ys = Inr r" "mset r = add_mset x (mset ys)"
    by auto
  from Cons.prems assms(1) have "compareFiles lc x y = Inr (compareNames lc (itemName x) (itemName y))"
    by (simp add: compareFiles_media)
  with r show ?case by simp
qed

lemma sortWith_media:
  assumes "\<forall>y \<in> set fs. hasMedia y"
  shows "\<exists>r. sortWith (compareFiles lc) fs = Inr r \<and> mset r = mset fs"
  using assms
proof (induction fs)
  case Nil
  show ?case by simp
next
  case (Cons x xs)
  then obtain s where s: "sortWith (compareFiles lc) xs = Inr s" "mset s = mset xs" by auto
  then have "\<forall>y \<in> set s. hasMedia y" using Cons.prems
    by (metis list.set_intros(2) set_mset_mset)
  with Cons.prems obtain r where "insertSorted (compareFiles lc) x s = Inr r" "mset r = add_mset x (mset s)"
    using insertSorted_media[of x s lc] by auto
  with s show ?case by simp
qed

lemma insertSorted_sorted:
  assumes c: "consistent lc" and x: "hasMedia x"
  shows "\<forall>y \<in> set ys. hasMedia y \<Longrightarrow> sorted_wrt (inOrder lc) ys \<Longrightarrow>
    insertSorted (compareFiles lc) x ys = Inr r \<Longrightarrow> sorted_wrt (inOrder lc) r"
proof (induction ys arbitrary: r)
  case Nil
  then show ?case by auto
next
  case (Cons y ys)
  have xy: "compareFiles lc x y = Inr (compareNames lc (itemName x) (itemName y))"
    using x Cons.prems(1) by (simp add: compareFiles_media)
  show ?case
  proof (cases "compareNames lc (itemName x) (itemName y) \<le> 0")
    case True
    with xy Cons.prems(3) have r: "r = x # y # ys" by simp
    have "\<forall>z \<in> set ys. inOrder lc x z"
    proof
      fix z assume z: "z \<in> set ys"
      with Cons.prems have "inOrder lc y z" "hasMedia z" "hasMedia y" by auto
      then show "inOrder lc x z"
        using True x compareNames_trans[OF c, of "itemName x" "itemName y" "itemName z"]
        by (simp add: inOrder_media)
    qed
    with True Cons.prems x show ?thesis by (simp add: r inOrder_media)
  next
    case False
    obtain r' where r': "insertSorted (compareFiles lc) x ys = Inr r'" "mset r' = add_mset x (mset ys)"
      using insertSorted_media[of x ys lc] x Cons.prems(1) by auto
    with False xy Cons.prems(3) have r: "r = y # r'" by simp
    from Cons.IH[OF _ _ r'(1)] Cons.prems have s: "sorted_wrt (inOrder lc) r'" by simp
    have yx: "inOrder lc y x"
      using False compareNames_total[OF c, of "itemName x" "itemName y"] x Cons.prems(1)
      by (simp add: inOrder_media)
    have "set r' = insert x (set ys)" using r'(2) by (metis set_mset_add_mset_insert set_mset_mset)
    with yx Cons.prems(2) s show ?thesis by (simp add: r)
  qed
qed

lemma sortWith_sorted:
  assumes c: "consistent lc"
  shows "\<forall>y \<in> set fs. hasMedia y \<Longrightarrow> sortWith (compareFiles lc) fs = Inr r \<Longrightarrow>
    sorted_wrt (inOrder lc) r"
proof (induction fs arbitrary: r)
  case Nil
  then show ?case by simp
next
  case (Cons x xs)
  obtain s where s: "sortWith (compareFiles lc) xs = Inr s" "mset s = mset xs"
    using sortWith_media[of xs lc] Cons.prems(1) by auto
  then have m: "\<forall>y \<in> set s. hasMedia y" using Cons.prems(1)
    by (metis list.set_intros(2) set_mset_mset)
  from Cons.IH[OF _ s(1)] Cons.prems(1) have ss: "sorted_wrt (inOrder lc) s" by simp
  from s Cons.prems(2) have ins: "insertSorted (compareFiles lc) x s = Inr r" by simp
  from Cons.prems(1) have "hasMedia x" by simp
  from insertSorted_sorted[OF c this m ss ins] show ?case .
qed

lemma sortWith_sorted_id:
  "\<forall>y \<in> set ys. hasMedia y \<Longrightarrow> sorted_wrt (inOrder lc) ys \<Longrightarrow>
   sortWith (compareFiles lc) ys = Inr ys"
proof (induction ys)
  case Nil
  show ?case by simp
next
  case (Cons y ys)
  then have ih: "sortWith (compareFiles lc) ys = Inr ys" by simp
  show ?case
  proof (cases ys)
    case Nil
    then show ?thesis by simp
  next
    case (Cons z zs)
    with Cons.prems have "inOrder lc y z" "hasMedia y" "hasMedia z" by auto
    then have "compareFiles lc y z = Inr (compareNames lc (itemName y) (itemName z))"
      "compareNames lc (itemName y) (itemName z) \<le> 0"
      by (simp_all add: compareFiles_media inOrder_media)
    with ih Cons show ?thesis by simp
  qed
qed

lemma sameKey_media:
  "hasMedia a \<Longrightarrow> hasMedia b \<Longrightarrow> sameKey lc a b \<longleftrightarrow> compareNames lc (itemName a) (itemName b) = 0"
  by (simp add: sameKey_def compareFiles_media)

lemma compareNames_zero_iff:
  "compareNames lc a b = 0 \<longleftrightarrow>
     getQualityRank a = getQualityRank b \<and> getEpisodeNumber a = getEpisodeNumber b \<and> lc a b = 0"
  by (auto simp: compareNames_def)

lemma compareNames_sym0:
  "consistent lc \<Longrightarrow> compareNames lc a b = 0 \<Longrightarrow> compareNames lc b a = 0"
  using consistent_sym0[of lc a b] by (simp add: compareNames_zero_iff)

lemma insertSorted_stable:
  assumes c: "consistent lc" and x: "hasMedia x" and a: "hasMedia a"
  shows "\<forall>y \<in> set ys. hasMedia y \<Longrightarrow> insertSorted (compareFiles lc) x ys = Inr r \<Longrightarrow>
    filter (sameKey lc a) r = filter (sameKey lc a) (x # ys)"
proof (induction ys arbitrary: r)
  case Nil
  then show ?case by auto
next
  case (Cons y ys)
  have xy: "compareFiles lc x y = Inr (compareNames lc (itemName x) (itemName y))"
    using x Cons.prems(1) by (simp add: compareFiles_media)
  show ?case
  proof (cases "compareNames lc (itemName x) (itemName y) \<le> 0")
    case True
    with xy Cons.prems(2) show ?thesis by simp
  next
    case False
    obtain r' where r': "insertSorted (compareFiles lc) x ys = Inr r'"
      using insertSorted_media[of x ys lc] x Cons.prems(1) by auto
    with False xy Cons.prems(2) have r: "r = y # r'" by simp
    from Cons.IH[OF _ r'] Cons.prems(1)
    have ih: "filter (sameKey lc a) r' = filter (sameKey lc a) (x # ys)" by simp
    have "\<not> (sameKey lc a x \<and> sameKey lc a y)"
    proof
      assume "sameKey lc a x \<and> sameKey lc a y"
      then have "compareNames lc (itemName a) (itemName x) = 0" "compareNames lc (itemName a) (itemName y) = 0"
        using a x Cons.prems(1) by (simp_all add: sameKey_media)
      then have "compareNames lc (itemName x) (itemName a) \<le> 0" "compareNames lc (itemName a) (itemName y) \<le> 0"
        using compareNames_sym0[OF c] by simp_all
      then have "compareNames lc (itemName x) (itemName y) \<le> 0" by (rule compareNames_trans[OF c])
      with False show False by simp
    qed
    with ih show ?thesis by (auto simp: r)
  qed
qed

lemma sortWith_stable:
  assumes c: "consistent lc" and a: "hasMedia a"
  shows "\<forall>y \<in> set fs. hasMedia y \<Longrightarrow> sortWith (compareFiles lc) fs = Inr r \<Longrightarrow>
    filter (sameKey lc a) r = filter (sameKey lc a) fs"
proof (induction fs arbitrary: r)
  case Nil
  then show ?case by simp
next
  case (Cons x xs)
  obtain s where s: "sortWith (compareFiles lc) xs = Inr s" "mset s = mset xs"
    using sortWith_media[of xs lc] Cons.prems(1) by auto
  then have m: "\<forall>y \<in> set s. hasMedia y" using Cons.prems(1)
    by (metis list.set_intros(2) set_mset_mset)
  from Cons.IH[OF _ s(1)] Cons.prems(1)
  have ih: "filter (sameKey lc a) s = filter (sameKey lc a) xs" by simp
  from s Cons.prems(2) have "insertSorted (compareFiles lc) x s = Inr r" by simp
  moreover from Cons.prems(1) have "hasMedia x" by simp
  ultimately have "filter (sameKey lc a) r = filter (sameKey lc a) (x # s)"
    using insertSorted_stable[OF c _ a m] by blast
  with ih show ?case by simp
qed

lemma codeUnitCompare_sign: "(codeUnitCompare a b < 0) = (0 < codeUnitCompare b a)"
  by (induction a b rule: codeUnitCompare.induct) simp_all

lemma codeUnitCompare_trans:
  "codeUnitCompare a b \<le> 0 \<Longrightarrow> codeUnitCompare b c \<le> 0 \<Longrightarrow> codeUnitCompare a c \<le> 0"
proof (induction a b arbitrary: c rule: codeUnitCompare.induct)
  case 1
  then show ?case by simp
next
  case (2 y ys)
  then show ?case by (cases c) auto
next
  case (3 x xs)
  then show ?case by simp
next
  case (4 x xs y ys)
  show ?case
  proof (cases c)
    case Nil
    with "4.prems" show ?thesis by simp
  next
    case (Cons z zs)
    show ?thesis
    proof (cases "codeUnit x < codeUnit y")
      case True
      with "4.prems" Cons show ?thesis by (auto split: if_splits)
    next
      case False
      with "4.prems"(1) have xy: "codeUnit x = codeUnit y" "codeUnitCompare xs ys \<le> 0"
        by (auto split: if_splits)
      show ?thesis
      proof (cases "codeUnit y < codeUnit z")
        case True
        with xy Cons show ?thesis by simp
      next
        case False
        with "4.prems"(2) Cons have yz: "codeUnit y = codeUnit z" "codeUnitCompare ys zs \<le> 0"
          by (auto split: if_splits)
        from "4.IH"[of zs] xy yz have "codeUnitCompare xs zs \<le> 0" by simp
        with xy yz Cons show ?thesis by simp
      qed
    qed
  qed
qed

lemma consistent_codeUnitCompare: "consistent codeUnitCompare"
  unfolding consistent_def using codeUnitCompare_sign codeUnitCompare_trans by blast



section \<open>Properties of the delivery engine\<close>

subsection \<open>Calls, pauses and retries\<close>

declare retryLoop.simps [simp del]
declare makeBatches.simps [simp del]

lemma call_cases:
  obtains (ok) "env (calls w) a = None"
      "call env a w = (Inr (), w\<lparr> calls := calls w + 1, trace := trace w @ [Call a None] \<rparr>)"
  | (fail) m where "env (calls w) a = Some m"
      "call env a w = (Inl (Error m), w\<lparr> calls := calls w + 1, trace := trace w @ [Call a (Some m)] \<rparr>)"
  by (cases "env (calls w) a") (auto simp: call_def Let_def)

lemma call_sessions [simp]: "userFileSequences (snd (call env a w)) = userFileSequences w"
  by (simp add: call_def Let_def)

lemma call_users [simp]: "users (snd (call env a w)) = users w"
  by (simp add: call_def Let_def)

lemma call_clock [simp]: "clock (snd (call env a w)) = clock w"
  by (simp add: call_def Let_def)

lemma call_trace: "trace (snd (call env a w)) = trace w @ [Call a (env (calls w) a)]"
  by (simp add: call_def Let_def)

lemma call_result: "fst (call env a w) = (case env (calls w) a of None \<Rightarrow> Inr () | Some m \<Rightarrow> Inl (Error m))"
  by (simp add: call_def Let_def)

lemma sleep_sessions [simp]: "userFileSequences (sleep ms w) = userFileSequences w"
  by (simp add: sleep_def)

lemma sleep_users [simp]: "users (sleep ms w) = users w"
  by (simp add: sleep_def)

lemma sleep_trace [simp]: "trace (sleep ms w) = trace w @ [Sleep ms]"
  by (simp add: sleep_def)

lemma retryLoop_call:
  "1 \<le> k \<Longrightarrow> k \<le> M \<Longrightarrow>
   \<exists>ms w1. userFileSequences w1 = userFileSequences w \<and> users w1 = users w \<and>
     ((retryLoop (call env a) M d k w = (Inr (Some ()), w1) \<and> k + length ms \<le> M \<and>
         trace w1 = trace w @ failedAttempts a d k ms @ [Call a None]) \<or>
      (retryLoop (call env a) M d k w = (Inl (Error (last ms)), w1) \<and> ms \<noteq> [] \<and>
         k + length ms = Suc M \<and>
         trace w1 = trace w @ failedAttempts a d k (butlast ms) @ [Call a (Some (last ms))]))"
proof (induction "M - k" arbitrary: k w)
  case 0
  then have km: "k = M" by simp
  show ?case
  proof (cases rule: call_cases[of env w a])
    case ok
    let ?w1 = "w\<lparr> calls := calls w + 1, trace := trace w @ [Call a None] \<rparr>"
    have "retryLoop (call env a) M d k w = (Inr (Some ()), ?w1)"
      using ok "0.prems" by (subst retryLoop.simps) simp
    then show ?thesis using "0.prems"
      by (intro exI[of _ "[]"] exI[of _ ?w1]) simp
  next
    case (fail m)
    let ?w1 = "w\<lparr> calls := calls w + 1, trace := trace w @ [Call a (Some m)] \<rparr>"
    have "retryLoop (call env a) M d k w = (Inl (Error m), ?w1)"
      using fail km by (subst retryLoop.simps) simp
    then show ?thesis using km
      by (intro exI[of _ "[m]"] exI[of _ ?w1]) simp
  qed
next
  case (Suc n)
  then have lt: "k < M" by simp
  show ?case
  proof (cases rule: call_cases[of env w a])
    case ok
    let ?w1 = "w\<lparr> calls := calls w + 1, trace := trace w @ [Call a None] \<rparr>"
    have "retryLoop (call env a) M d k w = (Inr (Some ()), ?w1)"
      using ok Suc.prems by (subst retryLoop.simps) simp
    then show ?thesis using Suc.prems
      by (intro exI[of _ "[]"] exI[of _ ?w1]) simp
  next
    case (fail m)
    let ?w1 = "w\<lparr> calls := calls w + 1, trace := trace w @ [Call a (Some m)] \<rparr>"
    let ?w2 = "sleep (d * 2 ^ (k - 1)) ?w1"
    have step: "retryLoop (call env a) M d k w = retryLoop (call env a) M d (Suc k) ?w2"
      using fail lt by (subst retryLoop.simps) simp
    have "n = M - Suc k" "1 \<le> Suc k" "Suc k \<le> M" using Suc.hyps(2) lt by simp_all
    from Suc.hyps(1)[OF this, of ?w2]
    obtain ms w1 where f: "userFileSequences w1 = userFileSequences w" "users w1 = users w"
      and d: "(retryLoop (call env a) M d (Suc k) ?w2 = (Inr (Some ()), w1) \<and> Suc k + length ms \<le> M \<and>
         trace w1 = trace ?w2 @ failedAttempts a d (Suc k) ms @ [Call a None]) \<or>
      (retryLoop (call env a) M d (Suc k) ?w2 = (Inl (Error (last ms)), w1) \<and> ms \<noteq> [] \<and>
         Suc k + length ms = Suc M \<and>
         trace w1 = trace ?w2 @ failedAttempts a d (Suc k) (butlast ms) @ [Call a (Some (last ms))])"
      by auto
    from d show ?thesis
    proof
      assume "retryLoop (call env a) M d (Suc k) ?w2 = (Inr (Some ()), w1) \<and> Suc k + length ms \<le> M \<and>
         trace w1 = trace ?w2 @ failedAttempts a d (Suc k) ms @ [Call a None]"
      then show ?thesis using f step
        by (intro exI[of _ "m # ms"] exI[of _ w1]) simp
    next
      assume "retryLoop (call env a) M d (Suc k) ?w2 = (Inl (Error (last ms)), w1) \<and> ms \<noteq> [] \<and>
         Suc k + length ms = Suc M \<and>
         trace w1 = trace ?w2 @ failedAttempts a d (Suc k) (butlast ms) @ [Call a (Some (last ms))]"
      then show ?thesis using f step
        by (intro exI[of _ "m # ms"] exI[of _ w1]) simp
    qed
  qed
qed

lemma sendFile_call:
  "mediaOf m = Some f \<Longrightarrow> \<exists>a. sendActionOf m = Some a \<and> sendFile env m f = call env a"
  by (auto simp: mediaOf_def sendActionOf_def sendFile_def Let_def fun_eq_iff split: option.splits)

lemma sendActionOf_None: "mediaOf m = None \<Longrightarrow> sendActionOf m = None"
  by (auto simp: mediaOf_def sendActionOf_def Let_def split: option.splits)

text \<open>One item under the retry policy of \<open>processBatch\<close>.\<close>

lemma retry_send:
  assumes "mediaOf (message x) = Some f"
  shows "\<exists>oc w1. validOutcome x oc \<and> oc \<noteq> Skipped \<and>
     userFileSequences w1 = userFileSequences w \<and> users w1 = users w \<and>
     trace w1 = trace w @ itemEvents x oc \<and>
     retryOperation (sendFile env (message x) f) (MAX_RETRIES CONFIG) (RETRY_DELAY CONFIG) w =
       (case oc of Delivered ms \<Rightarrow> Inr (Some ()) | GaveUp ms \<Rightarrow> Inl (Error (last ms))
                 | Skipped \<Rightarrow> Inr None, w1)"
proof -
  from sendFile_call[OF assms, of env] obtain a where a: "sendActionOf (message x) = Some a"
    "sendFile env (message x) f = call env a" by blast
  have hm: "hasMedia x" using assms by (simp add: hasMedia_def)
  have "1 \<le> (1::nat)" "1 \<le> MAX_RETRIES CONFIG" by (simp_all add: CONFIG_def)
  from retryLoop_call[OF this, of w env a "RETRY_DELAY CONFIG"]
  obtain ms w1 where f: "userFileSequences w1 = userFileSequences w" "users w1 = users w"
    and d: "(retryLoop (call env a) (MAX_RETRIES CONFIG) (RETRY_DELAY CONFIG) 1 w = (Inr (Some ()), w1) \<and>
         1 + length ms \<le> MAX_RETRIES CONFIG \<and>
         trace w1 = trace w @ failedAttempts a (RETRY_DELAY CONFIG) 1 ms @ [Call a None]) \<or>
      (retryLoop (call env a) (MAX_RETRIES CONFIG) (RETRY_DELAY CONFIG) 1 w = (Inl (Error (last ms)), w1) \<and>
         ms \<noteq> [] \<and> 1 + length ms = Suc (MAX_RETRIES CONFIG) \<and>
         trace w1 = trace w @ failedAttempts a (RETRY_DELAY CONFIG) 1 (butlast ms) @ [Call a (Some (last ms))])"
    by blast
  from d show ?thesis
  proof
    assume "retryLoop (call env a) (MAX_RETRIES CONFIG) (RETRY_DELAY CONFIG) 1 w = (Inr (Some ()), w1) \<and>
         1 + length ms \<le> MAX_RETRIES CONFIG \<and>
         trace w1 = trace w @ failedAttempts a (RETRY_DELAY CONFIG) 1 ms @ [Call a None]"
    then show ?thesis using f a hm
      by (intro exI[of _ "Delivered ms"] exI[of _ w1])
         (simp add: validOutcome_def itemEvents_def attempts_def retryOperation_def)
  next
    assume "retryLoop (call env a) (MAX_RETRIES CONFIG) (RETRY_DELAY CONFIG) 1 w = (Inl (Error (last ms)), w1) \<and>
         ms \<noteq> [] \<and> 1 + length ms = Suc (MAX_RETRIES CONFIG) \<and>
         trace w1 = trace w @ failedAttempts a (RETRY_DELAY CONFIG) 1 (butlast ms) @ [Call a (Some (last ms))]"
    then show ?thesis using f a hm
      by (intro exI[of _ "GaveUp ms"] exI[of _ w1])
         (simp add: validOutcome_def itemEvents_def attempts_def retryOperation_def)
  qed
qed

subsection \<open>The loops produce the schedule\<close>

lemma processBatchLoop_step:
  "\<exists>oc w1. validOutcome x oc \<and>
     userFileSequences w1 = userFileSequences w \<and> users w1 = users w \<and>
     trace w1 = trace w @ itemEvents x oc
       @ (if isDelivered oc \<and> i < len - 1 then [Sleep (DELAY_BETWEEN_FILES CONFIG)] else []) \<and>
     (\<forall>rest res. processBatchLoop env len i (x # rest) res w =
        processBatchLoop env len (Suc i) rest (tallyItem res (x, oc)) w1)"
proof (cases "mediaOf (message x)")
  case None
  then have "itemEvents x Skipped = []" by (simp add: itemEvents_def attempts_def split: option.splits)
  with None show ?thesis
    by (intro exI[of _ Skipped] exI[of _ w])
       (simp add: validOutcome_def hasMedia_def isDelivered_def tallyItem_def)
next
  case (Some f)
  from retry_send[OF Some, where w=w and env=env]
  obtain oc w1 where v: "validOutcome x oc" "oc \<noteq> Skipped"
    and fr: "userFileSequences w1 = userFileSequences w" "users w1 = users w"
    and tr: "trace w1 = trace w @ itemEvents x oc"
    and r: "retryOperation (sendFile env (message x) f) (MAX_RETRIES CONFIG) (RETRY_DELAY CONFIG) w =
       (case oc of Delivered ms \<Rightarrow> Inr (Some ()) | GaveUp ms \<Rightarrow> Inl (Error (last ms))
                 | Skipped \<Rightarrow> Inr None, w1)"
    by blast
  show ?thesis
  proof (cases oc)
    case (Delivered ms)
    let ?w2 = "if i < len - 1 then sleep (DELAY_BETWEEN_FILES CONFIG) w1 else w1"
    show ?thesis using v fr tr r Some Delivered
      by (intro exI[of _ oc] exI[of _ ?w2]) (simp add: isDelivered_def tallyItem_def)
  next
    case (GaveUp ms)
    show ?thesis using v fr tr r Some GaveUp
      by (intro exI[of _ oc] exI[of _ w1]) (simp add: isDelivered_def tallyItem_def)
  next
    case Skipped
    with v show ?thesis by simp
  qed
qed

lemma processBatchLoop_events:
  "\<exists>obs w1. map fst obs = items \<and> (\<forall>xo \<in> set obs. validOutcome (fst xo) (snd xo)) \<and>
     userFileSequences w1 = userFileSequences w \<and> users w1 = users w \<and>
     processBatchLoop env len i items res w = (foldl tallyItem res obs, w1) \<and>
     trace w1 = trace w @ batchEvents len i obs"
proof (induction items arbitrary: i res w)
  case Nil
  show ?case by (intro exI[of _ "[]"] exI[of _ w]) simp
next
  case (Cons x rest)
  from processBatchLoop_step[where x=x and w=w and i=i and len=len and env=env]
  obtain oc w1 where v: "validOutcome x oc"
    and fr: "userFileSequences w1 = userFileSequences w" "users w1 = users w"
    and tr: "trace w1 = trace w @ itemEvents x oc
       @ (if isDelivered oc \<and> i < len - 1 then [Sleep (DELAY_BETWEEN_FILES CONFIG)] else [])"
    and st: "processBatchLoop env len i (x # rest) res w =
        processBatchLoop env len (Suc i) rest (tallyItem res (x, oc)) w1"
    by blast
  from Cons.IH[where i="Suc i" and res="tallyItem res (x, oc)" and w=w1]
  obtain obs w2 where ih: "map fst obs = rest" "\<forall>xo \<in> set obs. validOutcome (fst xo) (snd xo)"
     "userFileSequences w2 = userFileSequences w1" "users w2 = users w1"
     "processBatchLoop env len (Suc i) rest (tallyItem res (x, oc)) w1 =
        (foldl tallyItem (tallyItem res (x, oc)) obs, w2)"
     "trace w2 = trace w1 @ batchEvents len (Suc i) obs"
    by blast
  show ?case using v fr tr st ih
    by (intro exI[of _ "(x, oc) # obs"] exI[of _ w2]) simp
qed

lemma processBatch_events:
  "\<exists>obs w1. map fst obs = batch \<and> (\<forall>xo \<in> set obs. validOutcome (fst xo) (snd xo)) \<and>
     userFileSequences w1 = userFileSequences w \<and> users w1 = users w \<and>
     processBatch env batch k n w = (batchResults obs, w1) \<and>
     trace w1 = trace w @ batchEvents (length obs) 0 obs"
proof -
  from processBatchLoop_events[where items=batch and w=w and env=env and len="length batch" and i=0 and res="\<lparr> success = 0, failed = 0, errors = [] \<rparr>"]
  obtain obs w1 where o: "map fst obs = batch" "\<forall>xo \<in> set obs. validOutcome (fst xo) (snd xo)"
     "userFileSequences w1 = userFileSequences w" "users w1 = users w"
     "processBatchLoop env (length batch) 0 batch \<lparr> success = 0, failed = 0, errors = [] \<rparr> w =
        (foldl tallyItem \<lparr> success = 0, failed = 0, errors = [] \<rparr> obs, w1)"
     "trace w1 = trace w @ batchEvents (length batch) 0 obs"
    by blast
  from o(1) have "length obs = length batch" by (metis length_map)
  with o show ?thesis
    by (intro exI[of _ obs] exI[of _ w1]) (simp add: processBatch_def batchResults_def)
qed

lemma processBatches_events:
  "\<exists>obs w1. (\<forall>b \<in> set obs. \<forall>xo \<in> set b. validOutcome (fst xo) (snd xo)) \<and>
     userFileSequences w1 = userFileSequences w \<and> users w1 = users w \<and>
     ((processBatches env n k bs acc w = (Inr (totals acc obs), w1) \<and> map (map fst) obs = bs \<and>
         trace w1 = trace w @ deliveryEvents n k obs) \<or>
      (\<exists>m. processBatches env n k bs acc w = (Inl (Error m), w1) \<and> 1 < n \<and>
         length obs < length bs \<and> map (map fst) obs = take (length obs) bs \<and>
         trace w1 = trace w @ deliveryEvents n k obs
           @ [Call (Reply (ProcessingBatch (Suc (k + length obs)) n)) (Some m)]))"
proof (induction bs arbitrary: k acc w)
  case Nil
  show ?case by (intro exI[of _ "[]"] exI[of _ w]) simp
next
  case (Cons b rest)
  obtain s f es where acc: "acc = (s, f, es)" by (cases acc)
  let ?a = "Reply (ProcessingBatch (k + 1) n)"
  consider (single) "\<not> 1 < n" | (ok) "1 < n" "env (calls w) ?a = None"
    | (fail) m where "1 < n" "env (calls w) ?a = Some m"
    by (cases "env (calls w) ?a") auto
  then show ?case
  proof cases
    case (fail m)
    let ?w1 = "w\<lparr> calls := calls w + 1, trace := trace w @ [Call ?a (Some m)] \<rparr>"
    have "processBatches env n k (b # rest) acc w = (Inl (Error m), ?w1)"
      using fail acc by (simp add: call_def Let_def)
    then show ?thesis using fail
      by (intro exI[of _ "[]"] exI[of _ ?w1]) simp
  next
    case single
    from processBatch_events[where batch=b and w=w and env=env and k=k and n=n]
    obtain ob w2 where o: "map fst ob = b" "\<forall>xo \<in> set ob. validOutcome (fst xo) (snd xo)"
      "userFileSequences w2 = userFileSequences w" "users w2 = users w"
      "processBatch env b k n w = (batchResults ob, w2)"
      "trace w2 = trace w @ batchEvents (length ob) 0 ob"
      by blast
    let ?w3 = "if k < n - 1 then sleep (DELAY_BETWEEN_BATCHES CONFIG) w2 else w2"
    let ?acc = "(s + success (batchResults ob), f + failed (batchResults ob), es @ errors (batchResults ob))"
    have st: "processBatches env n k (b # rest) acc w = processBatches env n (Suc k) rest ?acc ?w3"
      using single acc o(5) by simp
    from Cons.IH[where k="Suc k" and acc="?acc" and w="?w3"]
    obtain obs w4 where ih: "\<forall>b \<in> set obs. \<forall>xo \<in> set b. validOutcome (fst xo) (snd xo)"
      "userFileSequences w4 = userFileSequences ?w3" "users w4 = users ?w3"
      "(processBatches env n (Suc k) rest ?acc ?w3 = (Inr (totals ?acc obs), w4) \<and> map (map fst) obs = rest \<and>
         trace w4 = trace ?w3 @ deliveryEvents n (Suc k) obs) \<or>
      (\<exists>m. processBatches env n (Suc k) rest ?acc ?w3 = (Inl (Error m), w4) \<and> 1 < n \<and>
         length obs < length rest \<and> map (map fst) obs = take (length obs) rest \<and>
         trace w4 = trace ?w3 @ deliveryEvents n (Suc k) obs
           @ [Call (Reply (ProcessingBatch (Suc (Suc k + length obs)) n)) (Some m)])"
      by blast
    show ?thesis using single acc o st ih
      by (intro exI[of _ "ob # obs"] exI[of _ w4]) auto
  next
    case ok
    let ?w1 = "w\<lparr> calls := calls w + 1, trace := trace w @ [Call ?a None] \<rparr>"
    from processBatch_events[where batch=b and w="?w1" and env=env and k=k and n=n]
    obtain ob w2 where o: "map fst ob = b" "\<forall>xo \<in> set ob. validOutcome (fst xo) (snd xo)"
      "userFileSequences w2 = userFileSequences w" "users w2 = users w"
      "processBatch env b k n ?w1 = (batchResults ob, w2)"
      "trace w2 = trace w @ [Call ?a None] @ batchEvents (length ob) 0 ob"
      by auto
    let ?w3 = "if k < n - 1 then sleep (DELAY_BETWEEN_BATCHES CONFIG) w2 else w2"
    let ?acc = "(s + success (batchResults ob), f + failed (batchResults ob), es @ errors (batchResults ob))"
    have st: "processBatches env n k (b # rest) acc w = processBatches env n (Suc k) rest ?acc ?w3"
      using ok acc o(5) by (simp add: call_def Let_def)
    from Cons.IH[where k="Suc k" and acc="?acc" and w="?w3"]
    obtain obs w4 where ih: "\<forall>b \<in> set obs. \<forall>xo \<in> set b. validOutcome (fst xo) (snd xo)"
      "userFileSequences w4 = userFileSequences ?w3" "users w4 = users ?w3"
      "(processBatches env n (Suc k) rest ?acc ?w3 = (Inr (totals ?acc obs), w4) \<and> map (map fst) obs = rest \<and>
         trace w4 = trace ?w3 @ deliveryEvents n (Suc k) obs) \<or>
      (\<exists>m. processBatches env n (Suc k) rest ?acc ?w3 = (Inl (Error m), w4) \<and> 1 < n \<and>
         length obs < length rest \<and> map (map fst) obs = take (length obs) rest \<and>
         trace w4 = trace ?w3 @ deliveryEvents n (Suc k) obs
           @ [Call (Reply (ProcessingBatch (Suc (Suc k + length obs)) n)) (Some m)])"
      by blast
    show ?thesis using ok(1) acc o st ih
      by (intro exI[of _ "ob # obs"] exI[of _ w4]) auto
  qed
qed

subsection \<open>Batches and counters\<close>




lemma processBatchLoop_counts:
  "processBatchLoop env len i items res w = (res', w') \<Longrightarrow>
   success res' + failed res' = success res + failed res + length items \<and>
   length (errors res') + length (filter (\<lambda>x. \<not> hasMedia x) items) + failed res =
     failed res' + length (errors res)"
proof (induction items arbitrary: i res w)
  case Nil
  then show ?case by simp
next
  case (Cons x rest)
  show ?case
  proof (cases "mediaOf (message x)")
    case None
    with Cons.prems have "processBatchLoop env len (i + 1) rest (res\<lparr> failed := failed res + 1 \<rparr>) w = (res', w')"
      by simp
    from Cons.IH[OF this] None show ?thesis by (simp add: hasMedia_def)
  next
    case (Some f)
    obtain r w1 where r: "retryOperation (sendFile env (message x) f)
                  (MAX_RETRIES CONFIG) (RETRY_DELAY CONFIG) w = (r, w1)"
      by (cases "retryOperation (sendFile env (message x) f)
                  (MAX_RETRIES CONFIG) (RETRY_DELAY CONFIG) w")
    show ?thesis
    proof (cases r)
      case (Inr v)
      with Cons.prems Some r have "processBatchLoop env len (i + 1) rest (res\<lparr> success := success res + 1 \<rparr>)
                 (if i < len - 1 then sleep (DELAY_BETWEEN_FILES CONFIG) w1 else w1) = (res', w')"
        by simp
      from Cons.IH[OF this] Some show ?thesis by (simp add: hasMedia_def)
    next
      case (Inl e)
      with Cons.prems Some r have "processBatchLoop env len (i + 1) rest
                 (res\<lparr> failed := failed res + 1,
                       errors := errors res @ [fileName x @ '': '' @ errMessage e] \<rparr>) w1 = (res', w')"
        by simp
      from Cons.IH[OF this] Some show ?thesis by (simp add: hasMedia_def)
    qed
  qed
qed

lemma processBatch_counts:
  "success (fst (processBatch env batch k n w)) + failed (fst (processBatch env batch k n w))
     = length batch \<and>
   length (errors (fst (processBatch env batch k n w)))
     + length (filter (\<lambda>x. \<not> hasMedia x) batch) = failed (fst (processBatch env batch k n w))"
proof -
  obtain res' w' where p: "processBatch env batch k n w = (res', w')"
    by (cases "processBatch env batch k n w")
  then have "processBatchLoop env (length batch) 0 batch \<lparr> success = 0, failed = 0, errors = [] \<rparr> w = (res', w')"
    by (simp add: processBatch_def)
  from processBatchLoop_counts[OF this] p show ?thesis by simp
qed

lemma processBatches_counts:
  "processBatches env n k bs (s, f, es) w = (Inr (s', f', es'), w') \<Longrightarrow>
   s' + f' = s + f + length (concat bs) \<and> length es' + f \<le> f' + length es"
proof (induction bs arbitrary: k s f es w)
  case Nil
  then show ?case by simp
next
  case (Cons b rest)
  obtain u w1 where c: "(if 1 < n then call env (Reply (ProcessingBatch (k + 1) n)) w
            else (Inr (), w)) = (u, w1)"
    by (cases "if 1 < n then call env (Reply (ProcessingBatch (k + 1) n)) w else (Inr (), w)")
  obtain res w2 where p: "processBatch env b k n w1 = (res, w2)"
    by (cases "processBatch env b k n w1")
  from Cons.prems c obtain v where u: "u = Inr v" by (cases u) auto
  with Cons.prems c p have "processBatches env n (k + 1) rest
                 (s + success res, f + failed res, es @ errors res)
                 (if k < n - 1 then sleep (DELAY_BETWEEN_BATCHES CONFIG) w2 else w2) = (Inr (s', f', es'), w')"
    by simp
  from Cons.IH[OF this] processBatch_counts[of env b k n w1] p show ?case by simp
qed

lemma failedAttempts_calls: "length (filter isCall (failedAttempts a d k ms)) = length ms"
  by (induction ms arbitrary: k) (simp_all add: isCall_def)

lemma itemEvents_calls:
  "validOutcome x oc \<Longrightarrow> length (filter isCall (itemEvents x oc)) \<le> MAX_RETRIES CONFIG"
  by (cases oc)
     (auto simp: itemEvents_def attempts_def validOutcome_def failedAttempts_calls isCall_def
           CONFIG_def split: option.splits)




section \<open>Properties of the session manager\<close>

lemma documentItem_simps [simp]:
  "message (documentItem n) = documentMessage 1 n" "fileName (documentItem n) = n"
  by (simp_all add: documentItem_def)

lemma call_sessionsD: "call env a w = (r, w') \<Longrightarrow> userFileSequences w' = userFileSequences w"
  using call_sessions[of env a w] by simp

lemma retryLoop_sessions:
  assumes "\<And>w. userFileSequences (snd (operation w)) = userFileSequences w"
  shows "userFileSequences (snd (retryLoop operation M d k w)) = userFileSequences w"
proof (induction "Suc M - k" arbitrary: k w)
  case 0
  then have "\<not> k \<le> M" by simp
  then show ?case by (subst retryLoop.simps) simp
next
  case (Suc n)
  then have le: "k \<le> M" by simp
  obtain r w1 where o: "operation w = (r, w1)" by (cases "operation w")
  with assms[of w] have w1: "userFileSequences w1 = userFileSequences w" by simp
  show ?case
  proof (cases r)
    case (Inr v)
    with o le w1 show ?thesis by (subst retryLoop.simps) simp
  next
    case (Inl e)
    show ?thesis
    proof (cases "k = M")
      case True
      with o Inl w1 show ?thesis by (subst retryLoop.simps) simp
    next
      case False
      with Suc.hyps(2) le have "n = Suc M - (k + 1)" by simp
      from Suc.hyps(1)[OF this, of "sleep (d * 2 ^ (k - 1)) w1"] w1
      have "userFileSequences (snd (retryLoop operation M d (k + 1) (sleep (d * 2 ^ (k - 1)) w1)))
              = userFileSequences w" by simp
      with o Inl le False show ?thesis by (subst retryLoop.simps) simp
    qed
  qed
qed

lemma updateStatistics_sessions:
  "userFileSequences (snd (updateStatistics env u n w)) = userFileSequences w"
  by (auto simp: updateStatistics_def call_def Let_def split: option.splits)

lemma retry_statistics_sessions:
  "retryOperation (updateStatistics env u n) M d w = (r, w') \<Longrightarrow>
   userFileSequences w' = userFileSequences w"
  using retryLoop_sessions[of "updateStatistics env u n" M d 1 w, OF updateStatistics_sessions]
  by (simp add: retryOperation_def)

lemma processBatches_sessions:
  "processBatches env n k bs acc w = (r, w') \<Longrightarrow> userFileSequences w' = userFileSequences w"
  using processBatches_events[where env=env and n=n and k=k and bs=bs and acc=acc and w=w]
  by auto

lemma sequencing_sessions:
  assumes "sequencing env lc uid ud n w = (r, w')" and "u \<noteq> uid"
  shows "userFileSequences w' u = userFileSequences w u"
proof (cases "sortFiles lc (files ud)")
  case (Inl e)
  with assms show ?thesis by (simp add: sequencing_def)
next
  case (Inr sortedFiles)
  let ?w0 = "w\<lparr> userFileSequences := (userFileSequences w)(uid \<mapsto> ud\<lparr> files := sortedFiles \<rparr>) \<rparr>"
  let ?bs = "makeBatches sortedFiles 0"
  obtain r1 w1 where p: "processBatches env (length ?bs) 0 ?bs (0, 0, []) ?w0 = (r1, w1)"
    by (cases "processBatches env (length ?bs) 0 ?bs (0, 0, []) ?w0")
  from processBatches_sessions[OF p] assms(2)
  have w1: "userFileSequences w1 u = userFileSequences w u" by simp
  show ?thesis
  proof (cases r1)
    case (Inl e)
    with assms(1) Inr p w1 show ?thesis by (simp add: sequencing_def Let_def)
  next
    case r1: (Inr tot)
    obtain ts tf tes where tot: "tot = (ts, tf, tes)" by (cases tot)
    let ?a = "Reply (Summary n ts tf (take 5 tes) (length tes - 5))"
    obtain r2 w2 where c: "call env ?a w1 = (r2, w2)" by (cases "call env ?a w1")
    from call_sessionsD[OF c] w1 have w2: "userFileSequences w2 u = userFileSequences w u" by simp
    show ?thesis
    proof (cases r2)
      case (Inl e)
      with assms(1) Inr p r1 tot c w2 show ?thesis by (simp add: sequencing_def Let_def)
    next
      case r2: (Inr v)
      obtain r3 w3 where s: "retryOperation (updateStatistics env uid ts)
                               (MAX_RETRIES CONFIG) (RETRY_DELAY CONFIG) w2 = (r3, w3)"
        by (cases "retryOperation (updateStatistics env uid ts)
                               (MAX_RETRIES CONFIG) (RETRY_DELAY CONFIG) w2")
      from retry_statistics_sessions[OF s] w2
      have "userFileSequences w3 u = userFileSequences w u" by simp
      with assms(1) Inr p r1 tot c r2 s show ?thesis by (simp add: sequencing_def Let_def)
    qed
  qed
qed

lemma deleteSession_after:
  "(\<And>u. u \<noteq> uid \<Longrightarrow> userFileSequences w' u = userFileSequences w u) \<Longrightarrow>
   userFileSequences (deleteSession uid w') = (userFileSequences w)(uid := None)"
  by (auto simp: deleteSession_def fun_eq_iff)

lemma endSequence_sessions:
  "userFileSequences (snd (endSequence env lc msg w)) = userFileSequences w \<or>
   userFileSequences (snd (endSequence env lc msg w)) = (userFileSequences w)(from_id msg := None)"
proof (cases "userFileSequences w (from_id msg)")
  case None
  then show ?thesis by (simp add: endSequence_def)
next
  case (Some ud)
  show ?thesis
  proof (cases "length (files ud) = 0")
    case True
    obtain r1 w1 where c: "call env (Reply NoFilesToSequence) w = (r1, w1)"
      by (cases "call env (Reply NoFilesToSequence) w")
    from call_sessionsD[OF c] have "userFileSequences (deleteSession (from_id msg) w1)
        = (userFileSequences w)(from_id msg := None)" by (simp add: deleteSession_def)
    with Some True c call_sessionsD[OF c] show ?thesis
      by (cases r1) (simp_all add: endSequence_def)
  next
    case False
    let ?n = "length (files ud)"
    obtain r1 w1 where c: "call env (Reply (StartingToSequence ?n)) w = (r1, w1)"
      by (cases "call env (Reply (StartingToSequence ?n)) w")
    note w1 = call_sessionsD[OF c]
    show ?thesis
    proof (cases r1)
      case (Inl e)
      with Some False c w1 show ?thesis by (simp add: endSequence_def Let_def)
    next
      case r1: (Inr v)
      obtain r2 w2 where s: "sequencing env lc (from_id msg) ud ?n w1 = (r2, w2)"
        by (cases "sequencing env lc (from_id msg) ud ?n w1")
      have w2: "\<And>u. u \<noteq> from_id msg \<Longrightarrow> userFileSequences w2 u = userFileSequences w u"
        using sequencing_sessions[OF s] w1 by simp
      show ?thesis
      proof (cases r2)
        case (Inr v2)
        with Some False c r1 s deleteSession_after[of "from_id msg" w2 w, OF w2]
        show ?thesis by (simp add: endSequence_def Let_def)
      next
        case (Inl e)
        obtain r3 w3 where c3: "call env (Reply SequencingError) w2 = (r3, w3)"
          by (cases "call env (Reply SequencingError) w2")
        have "\<And>u. u \<noteq> from_id msg \<Longrightarrow> userFileSequences w3 u = userFileSequences w u"
          using w2 call_sessionsD[OF c3] by simp
        from deleteSession_after[of "from_id msg" w3 w, OF this] Some False c r1 s Inl c3
        show ?thesis by (simp add: endSequence_def Let_def)
      qed
    qed
  qed
qed

lemma endSequence_returns_removed:
  "fst (endSequence env lc msg w) = Inr () \<Longrightarrow>
   userFileSequences (snd (endSequence env lc msg w)) (from_id msg) = None"
  by (auto simp: endSequence_def Let_def deleteSession_def call_def
           split: option.splits prod.splits sum.splits if_splits)

lemma endSequence_guarded_removed:
  "userFileSequences w (from_id msg) = Some ud \<Longrightarrow>
   env (calls w) (Reply (if files ud = [] then NoFilesToSequence
                         else StartingToSequence (length (files ud)))) = None \<Longrightarrow>
   userFileSequences (snd (endSequence env lc msg w)) (from_id msg) = None"
  by (auto simp: endSequence_def Let_def deleteSession_def call_def
           split: option.splits prod.splits sum.splits if_splits)

lemma fileOf_mediaOf: "fileOf kind msg = Some f \<Longrightarrow> mediaOf msg \<noteq> None"
  by (cases kind) (auto simp: fileOf_def mediaOf_def split: option.splits)

lemma processFileSequence_sessions:
  "userFileSequences (snd (processFileSequence env msg kind w)) =
     (case userFileSequences w (from_id msg) of
        None \<Rightarrow> userFileSequences w
      | Some ud \<Rightarrow>
          (case fileOf kind msg of
             None \<Rightarrow> userFileSequences w
           | Some f \<Rightarrow>
               if MAX_FILES_PER_USER CONFIG \<le> length (files ud) then userFileSequences w
               else (userFileSequences w)(from_id msg \<mapsto>
                      ud\<lparr> files := files ud @
                            [\<lparr> message = msg, fileType = kind,
                               fileName =
                                 (case file_name f of
                                    None \<Rightarrow> fileTypeName kind @ ''_'' @ decimal (clock w)
                                  | Some n \<Rightarrow>
                                      if n = [] then fileTypeName kind @ ''_'' @ decimal (clock w)
                                      else n),
                               fileSize = (case file_size f of None \<Rightarrow> 0 | Some s \<Rightarrow> s),
                               timestamp = clock w \<rparr>],
                          lastActivity := clock w \<rparr>)))"
  by (auto simp: processFileSequence_def call_def Let_def split: option.splits)

lemma ssequence_sessions:
  "userFileSequences (snd (ssequence env msg w)) =
     (case userFileSequences w (from_id msg) of
        Some ud \<Rightarrow> userFileSequences w
      | None \<Rightarrow> (userFileSequences w)(from_id msg \<mapsto>
                  \<lparr> files = [], startTime = clock w, lastActivity = clock w \<rparr>))"
  by (auto simp: ssequence_def call_def Let_def split: option.splits)

lemma cancel_sessions:
  "userFileSequences (snd (cancel env msg w)) = (userFileSequences w)(from_id msg := None)"
  by (auto simp: cancel_def call_def Let_def deleteSession_def fun_eq_iff split: option.splits)

lemma status_sessions: "userFileSequences (snd (status env msg w)) = userFileSequences w"
  by (auto simp: status_def call_def Let_def split: option.splits)

lemma storeOK_sub:
  "storeOK w \<Longrightarrow>
   (\<And>u ud. userFileSequences w' u = Some ud \<Longrightarrow> userFileSequences w u = Some ud) \<Longrightarrow>
   storeOK w'"
  unfolding storeOK_def by blast

lemma storeOK_upd:
  "storeOK w \<Longrightarrow> userFileSequences w' = (userFileSequences w)(k \<mapsto> ud) \<Longrightarrow>
   length (files ud) \<le> MAX_FILES_PER_USER CONFIG \<Longrightarrow> \<forall>x \<in> set (files ud). hasMedia x \<Longrightarrow>
   storeOK w'"
  unfolding storeOK_def by (simp split: if_splits)

lemma ssequence_storeOK: "storeOK w \<Longrightarrow> storeOK (snd (ssequence env msg w))"
proof (cases "userFileSequences w (from_id msg)")
  case None
  assume ok: "storeOK w"
  from None have "userFileSequences (snd (ssequence env msg w)) =
      (userFileSequences w)(from_id msg \<mapsto> \<lparr> files = [], startTime = clock w, lastActivity = clock w \<rparr>)"
    by (simp add: ssequence_sessions)
  from storeOK_upd[OF ok this] show ?thesis by simp
next
  case (Some ud)
  assume ok: "storeOK w"
  from Some have eq: "userFileSequences (snd (ssequence env msg w)) = userFileSequences w"
    by (simp add: ssequence_sessions)
  show ?thesis by (rule storeOK_sub[OF ok]) (simp add: eq)
qed

lemma processFileSequence_storeOK:
  assumes ok: "storeOK w"
  shows "storeOK (snd (processFileSequence env msg kind w))"
proof -
  let ?w' = "snd (processFileSequence env msg kind w)"
  consider (same) "userFileSequences ?w' = userFileSequences w"
    | (added) ud f x where "userFileSequences w (from_id msg) = Some ud" "fileOf kind msg = Some f"
        "\<not> MAX_FILES_PER_USER CONFIG \<le> length (files ud)" "message x = msg"
        "userFileSequences ?w' = (userFileSequences w)(from_id msg \<mapsto>
            ud\<lparr> files := files ud @ [x], lastActivity := clock w \<rparr>)"
  proof (cases "userFileSequences w (from_id msg)")
    case None
    then have "userFileSequences ?w' = userFileSequences w"
      by (simp add: processFileSequence_sessions)
    then show ?thesis by (rule same)
  next
    case (Some ud)
    show ?thesis
    proof (cases "fileOf kind msg")
      case None
      with Some have "userFileSequences ?w' = userFileSequences w"
        by (simp add: processFileSequence_sessions)
      then show ?thesis by (rule same)
    next
      case f: (Some f)
      show ?thesis
      proof (cases "MAX_FILES_PER_USER CONFIG \<le> length (files ud)")
        case True
        with Some f have "userFileSequences ?w' = userFileSequences w"
          by (simp add: processFileSequence_sessions)
        then show ?thesis by (rule same)
      next
        case False
        let ?x = "\<lparr> message = msg, fileType = kind,
                               fileName =
                                 (case file_name f of
                                    None \<Rightarrow> fileTypeName kind @ ''_'' @ decimal (clock w)
                                  | Some n \<Rightarrow>
                                      if n = [] then fileTypeName kind @ ''_'' @ decimal (clock w)
                                      else n),
                               fileSize = (case file_size f of None \<Rightarrow> 0 | Some s \<Rightarrow> s),
                               timestamp = clock w \<rparr>"
        from Some f False have eq: "userFileSequences ?w' = (userFileSequences w)(from_id msg \<mapsto>
            ud\<lparr> files := files ud @ [?x], lastActivity := clock w \<rparr>)"
          by (simp add: processFileSequence_sessions)
        have "message ?x = msg" by simp
        from added[OF Some f False this eq] show ?thesis .
      qed
    qed
  qed
  then show ?thesis
  proof cases
    case same
    show ?thesis by (rule storeOK_sub[OF ok]) (simp add: same)
  next
    case (added ud f x)
    from ok added(1) have old: "length (files ud) \<le> MAX_FILES_PER_USER CONFIG"
      "\<forall>y \<in> set (files ud). hasMedia y" by (auto simp: storeOK_def)
    from fileOf_mediaOf[OF added(2)] added(4) have "hasMedia x" by (simp add: hasMedia_def)
    with old added(3) have
      "length (files (ud\<lparr> files := files ud @ [x], lastActivity := clock w \<rparr>)) \<le> MAX_FILES_PER_USER CONFIG"
      "\<forall>y \<in> set (files (ud\<lparr> files := files ud @ [x], lastActivity := clock w \<rparr>)). hasMedia y"
      by simp_all
    from storeOK_upd[OF ok added(5) this] show ?thesis .
  qed
qed

lemma endSequence_storeOK: "storeOK w \<Longrightarrow> storeOK (snd (endSequence env lc msg w))"
proof -
  assume ok: "storeOK w"
  from endSequence_sessions[of env lc msg w] show ?thesis
  proof
    assume eq: "userFileSequences (snd (endSequence env lc msg w)) = userFileSequences w"
    show ?thesis by (rule storeOK_sub[OF ok]) (simp add: eq)
  next
    assume eq: "userFileSequences (snd (endSequence env lc msg w)) = (userFileSequences w)(from_id msg := None)"
    show ?thesis by (rule storeOK_sub[OF ok]) (simp add: eq split: if_splits)
  qed
qed

lemma cancel_storeOK: "storeOK w \<Longrightarrow> storeOK (snd (cancel env msg w))"
proof -
  assume ok: "storeOK w"
  show ?thesis by (rule storeOK_sub[OF ok]) (simp add: cancel_sessions split: if_splits)
qed

lemma cleanup_storeOK: "storeOK w \<Longrightarrow> storeOK (cleanupInactiveSessions w)"
proof -
  assume ok: "storeOK w"
  show ?thesis
    by (rule storeOK_sub[OF ok])
       (simp add: cleanupInactiveSessions_def split: option.splits if_splits)
qed

lemma handle_storeOK: "storeOK w \<Longrightarrow> storeOK (handle env lc w inp)"
proof (cases inp)
  case (OnStatus msg)
  assume "storeOK w"
  then show ?thesis using OnStatus by (simp add: storeOK_def status_sessions)
next
  case (Elapse ms)
  assume "storeOK w"
  then show ?thesis using Elapse by (simp add: storeOK_def)
qed (simp_all add: ssequence_storeOK processFileSequence_storeOK endSequence_storeOK
       cancel_storeOK cleanup_storeOK)

lemma foldl_storeOK: "storeOK w \<Longrightarrow> storeOK (foldl (handle env lc) w inputs)"
  by (induction inputs arbitrary: w) (simp_all add: handle_storeOK)

lemma run_storeOK: "storeOK (run env lc inputs)"
  unfolding run_def by (rule foldl_storeOK) (simp add: storeOK_def startWorld_def)

lemma run_hasMedia:
  "userFileSequences (run env lc inputs) u = Some ud \<Longrightarrow> x \<in> set (files ud) \<Longrightarrow> hasMedia x"
  using run_storeOK[of env lc inputs] by (auto simp: storeOK_def)

lemma handle_dom:
  "dom (userFileSequences (handle env lc w inp))
     \<subseteq> dom (userFileSequences w) \<union> (case inp of OnSsequence m \<Rightarrow> {from_id m} | _ \<Rightarrow> {})"
proof (cases inp)
  case (OnSsequence msg)
  then show ?thesis by (auto simp: ssequence_sessions split: option.splits if_splits)
next
  case (OnStatus msg)
  then show ?thesis by (simp add: status_sessions)
next
  case (OnFile kind msg)
  then show ?thesis by (auto simp: processFileSequence_sessions split: option.splits if_splits)
next
  case (OnEsequence msg)
  then show ?thesis using endSequence_sessions[of env lc msg w] by (auto split: if_splits)
next
  case (OnCancel msg)
  then show ?thesis by (auto simp: cancel_sessions split: if_splits)
next
  case OnCleanupTimer
  then show ?thesis by (auto simp: cleanupInactiveSessions_def split: option.splits if_splits)
next
  case (Elapse ms)
  then show ?thesis by simp
qed

lemma processBatches_replies_accepted:
  "\<forall>j r. env j (Reply r) = None \<Longrightarrow> \<exists>acc' w'. processBatches env n k bs acc w = (Inr acc', w')"
proof (induction bs arbitrary: k acc w)
  case Nil
  show ?case by (intro exI[of _ acc] exI[of _ w]) simp
next
  case (Cons b rest)
  obtain s f es where acc: "acc = (s, f, es)" by (metis prod_cases3)
  let ?w1 = "if 1 < n then snd (call env (Reply (ProcessingBatch (k + 1) n)) w) else w"
  have c: "(if 1 < n then call env (Reply (ProcessingBatch (k + 1) n)) w else (Inr (), w))
             = (Inr (), ?w1)"
    using Cons.prems by (simp add: call_def Let_def)
  obtain res w2 where p: "processBatch env b k n ?w1 = (res, w2)"
    by (cases "processBatch env b k n ?w1")
  from Cons.IH[OF Cons.prems] acc c p show ?case by (simp del: One_nat_def)
qed


section \<open>Worked runs\<close>

text \<open>Facts used to run the model on concrete inputs.\<close>

lemma processBatchLoop_item:
  assumes "mediaOf (message x) = Some f"
  shows "\<exists>oc w0. validOutcome x oc \<and> oc \<noteq> Skipped \<and>
     retryOperation (sendFile env (message x) f) (MAX_RETRIES CONFIG) (RETRY_DELAY CONFIG) w =
       (case oc of Delivered ms \<Rightarrow> Inr (Some ()) | GaveUp ms \<Rightarrow> Inl (Error (last ms))
                 | Skipped \<Rightarrow> Inr None, w0) \<and>
     trace w0 = trace w @ itemEvents x oc \<and>
     (\<forall>len i rest res. processBatchLoop env len i (x # rest) res w =
        processBatchLoop env len (Suc i) rest (tallyItem res (x, oc))
          (if isDelivered oc \<and> i < len - 1 then sleep (DELAY_BETWEEN_FILES CONFIG) w0 else w0))"
proof -
  from retry_send[OF assms, where w=w and env=env]
  obtain oc w0 where v: "validOutcome x oc" "oc \<noteq> Skipped"
    and tr: "trace w0 = trace w @ itemEvents x oc"
    and r: "retryOperation (sendFile env (message x) f) (MAX_RETRIES CONFIG) (RETRY_DELAY CONFIG) w =
       (case oc of Delivered ms \<Rightarrow> Inr (Some ()) | GaveUp ms \<Rightarrow> Inl (Error (last ms))
                 | Skipped \<Rightarrow> Inr None, w0)"
    by blast
  have "\<forall>len i rest res. processBatchLoop env len i (x # rest) res w =
        processBatchLoop env len (Suc i) rest (tallyItem res (x, oc))
          (if isDelivered oc \<and> i < len - 1 then sleep (DELAY_BETWEEN_FILES CONFIG) w0 else w0)"
    using v(2) r assms by (cases oc) (simp_all add: isDelivered_def tallyItem_def)
  with v tr r show ?thesis by blast
qed

lemma attempts_examples:
  "attempts a (GaveUp [m1, m2, m3]) =
     [Call a (Some m1), Sleep 1000, Call a (Some m2), Sleep 2000, Call a (Some m3)]"
  "attempts a (Delivered [m1]) = [Call a (Some m1), Sleep 1000, Call a None]"
  "attempts a (Delivered []) = [Call a None]"
  by (simp_all add: attempts_def CONFIG_def)



lemmas exec_defs = endSequence_def sequencing_def processBatch_def retryOperation_def
  retryLoop.simps makeBatches.simps call_def sleep_def Let_def failingFile_def failingReply_def
  failingFirst_def failingSends_def
  CONFIG_def deleteSession_def updateStatistics_def sendFile_def mediaOf_def
  startWorld_def commandMessage_def documentMessage_def run_def ssequence_def
  processFileSequence_def fileOf_def


lemma sort_one: "sortFiles lc [x] = Inr [x]"
  by (simp add: sortFiles_def)


lemma all_sends_fail_example:
  "trace (run failingSends codeUnitCompare
     [OnSsequence (commandMessage 1), OnFile Document (documentMessage 1 ''a.mkv''),
      OnEsequence (commandMessage 1)]) =
   [Call (Reply (Started 200)) None,
    Call (Reply (FilesCollected 1)) None,
    Call (Reply (StartingToSequence 1)) None,
    Call (ReplyWithDocument ''a.mkv'' []) (Some ''unavailable''), Sleep 1000,
    Call (ReplyWithDocument ''a.mkv'' []) (Some ''unavailable''), Sleep 2000,
    Call (ReplyWithDocument ''a.mkv'' []) (Some ''unavailable''),
    Call (Reply (Summary 1 0 1 [''a.mkv: unavailable''] 0)) None,
    Call (FindOne 1) None,
    Call (UpdateOne 1) None] \<and>
   userFileSequences (run failingSends codeUnitCompare
     [OnSsequence (commandMessage 1), OnFile Document (documentMessage 1 ''a.mkv''),
      OnEsequence (commandMessage 1)]) 1 = None"
  by (simp add: sort_one exec_defs)

section \<open>The claims about the ordering engine\<close>



text \<open>
  Claim C2. The key is not the first standalone integer of one to three digits. By
  \<open>getEpisodeNumber_digits\<close> the pattern captures the first digits of the name, three at
  most, wherever they stand: in \<^verbatim>\<open>Show.1080p.E05.mkv\<close> the first three digits of the
  resolution, 108, and not the episode 5; in \<^verbatim>\<open>Show.480p.E02.mkv\<close> the resolution, 480. The
  sentinel 9999 is returned exactly for the names without a digit
  (\<open>getEpisodeNumber_no_digit\<close>, \<open>getEpisodeNumber_range\<close>).
\<close>

theorem getEpisodeNumber_of_resolution_token:
  "getEpisodeNumber ''Show.1080p.E05.mkv'' = 108 \<and>
   firstStandaloneInteger ''Show.1080p.E05.mkv'' = 5 \<and>
   getEpisodeNumber ''Show.480p.E02.mkv'' = 480"
  by code_simp

text \<open>
  Claim C3. Three items with the names of the example, in the order of the example, are
  sorted into the order the specification gives, for every consistent collation that puts
  \<^verbatim>\<open>Show.480p.E01.mkv\<close> before \<^verbatim>\<open>Show.480p.E02.mkv\<close>. (The two 480p files have the same
  episode key, 480, and are told apart by the names.)
\<close>

theorem sort_example:
  assumes "consistent lc"
    and "lc ''Show.480p.E01.mkv'' ''Show.480p.E02.mkv'' < 0"
    and "mediaOf (message x) = Some fx" and "file_name fx = Some ''Show.480p.E02.mkv''"
    and "mediaOf (message y) = Some fy" and "file_name fy = Some ''Show.720p.E01.mkv''"
    and "mediaOf (message z) = Some fz" and "file_name fz = Some ''Show.480p.E01.mkv''"
  shows "sortFiles lc [x, y, z] = Inr [z, x, y]"
proof -
  have q: "getQualityRank ''Show.480p.E02.mkv'' = 0" "getQualityRank ''Show.720p.E01.mkv'' = 2"
    "getQualityRank ''Show.480p.E01.mkv'' = 0"
    by code_simp+
  have e: "getEpisodeNumber ''Show.480p.E02.mkv'' = 480" "getEpisodeNumber ''Show.480p.E01.mkv'' = 480"
    by code_simp+
  have flip: "0 < lc ''Show.480p.E02.mkv'' ''Show.480p.E01.mkv''"
    using consistent_flip[OF assms(1)] assms(2) by simp
  have yz: "compareFiles lc y z = Inr 2"
    using assms q by (simp add: compareFiles_def sortName_def compareNames_def)
  have xz: "compareFiles lc x z = Inr (lc ''Show.480p.E02.mkv'' ''Show.480p.E01.mkv'')"
    using assms q e by (simp add: compareFiles_def sortName_def compareNames_def)
  have xy: "compareFiles lc x y = Inr (- 2)"
    using assms q by (simp add: compareFiles_def sortName_def compareNames_def)
  show ?thesis
    using yz xz xy flip by (simp add: sortFiles_def)
qed

theorem sort_example_witness:
  "sortFiles codeUnitCompare
     [documentItem ''Show.480p.E02.mkv'', documentItem ''Show.720p.E01.mkv'',
      documentItem ''Show.480p.E01.mkv''] =
   Inr [documentItem ''Show.480p.E01.mkv'', documentItem ''Show.480p.E02.mkv'',
        documentItem ''Show.720p.E01.mkv'']"
proof -
  have lt: "codeUnitCompare ''Show.480p.E01.mkv'' ''Show.480p.E02.mkv'' < 0" by code_simp
  have m: "\<And>n. mediaOf (message (documentItem n)) =
      Some \<lparr> file_id = n, file_name = Some n, file_size = None \<rparr>"
    by (simp add: documentItem_def documentMessage_def mediaOf_def)
  have f: "\<And>n. file_name \<lparr> file_id = n, file_name = Some n, file_size = None \<rparr> = Some n"
    by simp
  show ?thesis
    by (rule sort_example[OF consistent_codeUnitCompare lt m f m f m f])
qed

text \<open>
  Claim C4. With a consistent collation, sorting a list of stored items succeeds and sorting
  the result again returns it unchanged. The result is a permutation of the input, in
  comparator order, and stable: the items that compare equal to a given one keep their
  order. The comparator order is total and transitive on stored items.
\<close>

theorem sort_idempotent:
  assumes "consistent lc" and "\<forall>f \<in> set fs. hasMedia f"
  shows "\<exists>ys. sortFiles lc fs = Inr ys \<and> sortFiles lc ys = Inr ys \<and>
     mset ys = mset fs \<and> sorted_wrt (inOrder lc) ys \<and>
     (\<forall>a. hasMedia a \<longrightarrow> filter (sameKey lc a) ys = filter (sameKey lc a) fs) \<and>
     (\<forall>a b. hasMedia a \<longrightarrow> hasMedia b \<longrightarrow> inOrder lc a b \<or> inOrder lc b a) \<and>
     (\<forall>a b c. hasMedia a \<longrightarrow> hasMedia b \<longrightarrow> hasMedia c \<longrightarrow>
        inOrder lc a b \<longrightarrow> inOrder lc b c \<longrightarrow> inOrder lc a c)"
proof -
  obtain ys where ys: "sortWith (compareFiles lc) fs = Inr ys" "mset ys = mset fs"
    using sortWith_media[OF assms(2)] by blast
  have m: "\<forall>y \<in> set ys. hasMedia y"
    using assms(2) ys(2) by (metis set_mset_mset)
  have s: "sorted_wrt (inOrder lc) ys"
    using sortWith_sorted[OF assms(1) assms(2) ys(1)] .
  have again: "sortWith (compareFiles lc) ys = Inr ys"
    using sortWith_sorted_id[OF m s] .
  have stable: "\<forall>a. hasMedia a \<longrightarrow> filter (sameKey lc a) ys = filter (sameKey lc a) fs"
    using sortWith_stable[OF assms(1) _ assms(2) ys(1)] by blast
  have total: "\<forall>a b. hasMedia a \<longrightarrow> hasMedia b \<longrightarrow> inOrder lc a b \<or> inOrder lc b a"
    using compareNames_total[OF assms(1)] by (simp add: inOrder_media)
  have trans: "\<forall>a b c. hasMedia a \<longrightarrow> hasMedia b \<longrightarrow> hasMedia c \<longrightarrow>
        inOrder lc a b \<longrightarrow> inOrder lc b c \<longrightarrow> inOrder lc a c"
    using compareNames_trans[OF assms(1)] by (simp add: inOrder_media)
  show ?thesis
    using ys again s stable total trans unfolding sortFiles_def by blast
qed

theorem sort_idempotent_witness:
  "sortFiles codeUnitCompare
     [documentItem ''b.720p.E2.mkv'', documentItem ''a.480p.E1.mkv''] =
     Inr [documentItem ''a.480p.E1.mkv'', documentItem ''b.720p.E2.mkv''] \<and>
   sortFiles codeUnitCompare
     [documentItem ''a.480p.E1.mkv'', documentItem ''b.720p.E2.mkv''] =
     Inr [documentItem ''a.480p.E1.mkv'', documentItem ''b.720p.E2.mkv'']"
proof -
  let ?fs = "[documentItem ''b.720p.E2.mkv'', documentItem ''a.480p.E1.mkv'']"
  have h: "\<forall>f \<in> set ?fs. hasMedia f"
    by (simp add: hasMedia_def documentItem_def documentMessage_def mediaOf_def)
  from sort_idempotent[OF consistent_codeUnitCompare h]
  obtain ys where ys: "sortFiles codeUnitCompare ?fs = Inr ys" "sortFiles codeUnitCompare ys = Inr ys"
    by blast
  moreover have "sortFiles codeUnitCompare ?fs =
      Inr [documentItem ''a.480p.E1.mkv'', documentItem ''b.720p.E2.mkv'']"
    by code_simp
  ultimately show ?thesis by simp
qed

section \<open>The claims about delivery and sessions\<close>




text \<open>
  Claim C6. For an item with media, the send under \<^verbatim>\<open>retryOperation\<close> has an outcome that
  fits the item: delivered after fewer than \<^verbatim>\<open>MAX_RETRIES\<close> (3) failures, or given up after
  exactly that many, the error thrown being the last one. The events are the attempts of
  that outcome, \<^verbatim>\<open>MAX_RETRIES\<close> calls at most; every failed attempt but the last of a given-up
  item is followed by a pause of \<^verbatim>\<open>RETRY_DELAY\<close> (1000 ms) times \<open>2 ^ (attempt - 1)\<close>, as the
  three instances show. The loop then goes on with the next item, the counters updated by
  the outcome: a given-up item adds one failure and the description made of its name and
  the last message. Every item of a batch is counted, and as long as the progress texts
  are accepted the loop over the batches ends without an error, whatever the sends do.
\<close>

theorem item_retry_policy:
  assumes "mediaOf (message x) = Some f"
  shows "(\<exists>oc w0. validOutcome x oc \<and> oc \<noteq> Skipped \<and>
       retryOperation (sendFile env (message x) f) (MAX_RETRIES CONFIG) (RETRY_DELAY CONFIG) w =
         (case oc of Delivered ms \<Rightarrow> Inr (Some ()) | GaveUp ms \<Rightarrow> Inl (Error (last ms))
                   | Skipped \<Rightarrow> Inr None, w0) \<and>
       trace w0 = trace w @ itemEvents x oc \<and>
       length (filter isCall (itemEvents x oc)) \<le> MAX_RETRIES CONFIG \<and>
       (\<forall>len i rest res. processBatchLoop env len i (x # rest) res w =
          processBatchLoop env len (Suc i) rest (tallyItem res (x, oc))
            (if isDelivered oc \<and> i < len - 1 then sleep (DELAY_BETWEEN_FILES CONFIG) w0 else w0))) \<and>
     MAX_RETRIES CONFIG = 3 \<and> RETRY_DELAY CONFIG = 1000 \<and>
     attempts a (GaveUp [m1, m2, m3]) =
       [Call a (Some m1), Sleep 1000, Call a (Some m2), Sleep 2000, Call a (Some m3)] \<and>
     attempts a (Delivered [m1]) = [Call a (Some m1), Sleep 1000, Call a None] \<and>
     attempts a (Delivered []) = [Call a None] \<and>
     tallyItem res0 (x, GaveUp ms0) =
       res0\<lparr> failed := failed res0 + 1,
             errors := errors res0 @ [fileName x @ '': '' @ last ms0] \<rparr> \<and>
     success (fst (processBatch env1 batch k n w1)) + failed (fst (processBatch env1 batch k n w1))
       = length batch \<and>
     ((\<forall>j r. env1 j (Reply r) = None) \<longrightarrow>
        (\<exists>acc' w'. processBatches env1 n k bs acc w1 = (Inr acc', w')))"
proof -
  from processBatchLoop_item[OF assms, where w=w and env=env]
  obtain oc w0 where v: "validOutcome x oc" "oc \<noteq> Skipped"
    and r: "retryOperation (sendFile env (message x) f) (MAX_RETRIES CONFIG) (RETRY_DELAY CONFIG) w =
         (case oc of Delivered ms \<Rightarrow> Inr (Some ()) | GaveUp ms \<Rightarrow> Inl (Error (last ms))
                   | Skipped \<Rightarrow> Inr None, w0)"
    and tr: "trace w0 = trace w @ itemEvents x oc"
    and st: "\<forall>len i rest res. processBatchLoop env len i (x # rest) res w =
          processBatchLoop env len (Suc i) rest (tallyItem res (x, oc))
            (if isDelivered oc \<and> i < len - 1 then sleep (DELAY_BETWEEN_FILES CONFIG) w0 else w0)"
    by blast
  have n: "length (filter isCall (itemEvents x oc)) \<le> MAX_RETRIES CONFIG"
    using v(1) by (rule itemEvents_calls)
  have first: "\<exists>oc w0. validOutcome x oc \<and> oc \<noteq> Skipped \<and>
       retryOperation (sendFile env (message x) f) (MAX_RETRIES CONFIG) (RETRY_DELAY CONFIG) w =
         (case oc of Delivered ms \<Rightarrow> Inr (Some ()) | GaveUp ms \<Rightarrow> Inl (Error (last ms))
                   | Skipped \<Rightarrow> Inr None, w0) \<and>
       trace w0 = trace w @ itemEvents x oc \<and>
       length (filter isCall (itemEvents x oc)) \<le> MAX_RETRIES CONFIG \<and>
       (\<forall>len i rest res. processBatchLoop env len i (x # rest) res w =
          processBatchLoop env len (Suc i) rest (tallyItem res (x, oc))
            (if isDelivered oc \<and> i < len - 1 then sleep (DELAY_BETWEEN_FILES CONFIG) w0 else w0))"
    using v r tr n st by blast
  have cfg: "MAX_RETRIES CONFIG = 3" "RETRY_DELAY CONFIG = 1000" by (simp_all add: CONFIG_def)
  have tally: "tallyItem res0 (x, GaveUp ms0) =
       res0\<lparr> failed := failed res0 + 1,
             errors := errors res0 @ [fileName x @ '': '' @ last ms0] \<rparr>"
    by (simp add: tallyItem_def)
  have counts: "success (fst (processBatch env1 batch k n w1)) + failed (fst (processBatch env1 batch k n w1))
       = length batch"
    using processBatch_counts[of env1 batch k n w1] by simp
  have going: "(\<forall>j r. env1 j (Reply r) = None) \<longrightarrow>
        (\<exists>acc' w'. processBatches env1 n k bs acc w1 = (Inr acc', w'))"
    using processBatches_replies_accepted[of env1 n k bs acc w1] by blast
  show ?thesis
    by (intro conjI first cfg attempts_examples tally counts going)
qed

theorem item_retry_policy_witness:
  "(\<exists>oc (w0::world). trace w0 = trace startWorld @ itemEvents (documentItem ''a.mkv'') oc \<and>
      length (filter isCall (itemEvents (documentItem ''a.mkv'') oc)) \<le> MAX_RETRIES CONFIG) \<and>
   (\<exists>acc' w'. processBatches (failingFile ''a.mkv'') 1 0 [ [documentItem ''a.mkv''] ] (0, 0, [])
                 startWorld = (Inr acc', w'))"
proof -
  have h: "mediaOf (message (documentItem ''a.mkv'')) =
      Some \<lparr> file_id = ''a.mkv'', file_name = Some ''a.mkv'', file_size = None \<rparr>"
    by (simp add: mediaOf_def documentMessage_def)
  have r: "\<forall>j r. failingFile ''a.mkv'' j (Reply r) = None"
    by (simp add: failingFile_def)
  note t = item_retry_policy[OF h, where env="failingFile ''a.mkv''" and w=startWorld
      and ?env1.0="failingFile ''a.mkv''" and n=1 and k=0 and bs="[ [documentItem ''a.mkv''] ]"
      and acc="(0, 0, [])" and ?w1.0=startWorld]
  from t[THEN conjunct1]
  have "\<exists>oc (w0::world). trace w0 = trace startWorld @ itemEvents (documentItem ''a.mkv'') oc \<and>
      length (filter isCall (itemEvents (documentItem ''a.mkv'') oc)) \<le> MAX_RETRIES CONFIG"
    by blast
  moreover from r t[THEN conjunct2, THEN conjunct2, THEN conjunct2, THEN conjunct2, THEN conjunct2,
      THEN conjunct2, THEN conjunct2, THEN conjunct2]
  have "\<exists>acc' w'. processBatches (failingFile ''a.mkv'') 1 0
      [ [documentItem ''a.mkv''] ] (0, 0, []) startWorld = (Inr acc', w')"
    by blast
  ultimately show ?thesis by blast
qed

text \<open>
  Claim C7. The session is not removed on every exit path. The text that reports an empty
  session is sent before the removal, and the text that announces the delivery is sent
  before the \<^verbatim>\<open>try\<close> block: when either is refused, \<^verbatim>\<open>endSequence\<close> throws and the session
  stays, empty in the first run below, with its item in the second. What does hold is in
  \<open>endSequence_returns_removed\<close> (no session is left whenever \<^verbatim>\<open>endSequence\<close> returns),
  \<open>endSequence_guarded_removed\<close> (nor whenever that first text is accepted) and
  \<open>all_sends_fail_example\<close>.
\<close>

theorem endSequence_leaves_session:
  "userFileSequences (run (failingReply NoFilesToSequence) codeUnitCompare
     [OnSsequence (commandMessage 1), OnEsequence (commandMessage 1)]) 1 =
     Some \<lparr> files = [], startTime = 0, lastActivity = 0 \<rparr> \<and>
   userFileSequences (run (failingReply (StartingToSequence 1)) codeUnitCompare
     [OnSsequence (commandMessage 1), OnFile Document (documentMessage 1 ''a.mkv''),
      OnEsequence (commandMessage 1)]) 1 =
     Some \<lparr> files = [documentItem ''a.mkv''], startTime = 0, lastActivity = 0 \<rparr> \<and>
   trace (run (failingReply NoFilesToSequence) codeUnitCompare
     [OnSsequence (commandMessage 1), OnEsequence (commandMessage 1)]) =
     [Call (Reply (Started 200)) None, Call (Reply NoFilesToSequence) (Some ''unavailable'')]"
  by (simp add: documentItem_def exec_defs)

text \<open>
  Claim C8. With a session open, \<^verbatim>\<open>/ssequence\<close> does nothing but send the text that carries
  the number of items of that session, and the store is unchanged. Without one, it stores
  an empty session whose two times are the current time, and sends the starting text. The
  store is a map, so a user never has two sessions; and no other input ever adds a user
  to the store.
\<close>

theorem ssequence_one_session:
  "(userFileSequences w (from_id msg) = Some ud \<longrightarrow>
      ssequence env msg w = call env (Reply (AlreadyActive (length (files ud)))) w \<and>
      userFileSequences (snd (ssequence env msg w)) = userFileSequences w) \<and>
   (userFileSequences w (from_id msg) = None \<longrightarrow>
      ssequence env msg w =
        call env (Reply (Started (MAX_FILES_PER_USER CONFIG)))
          (w\<lparr> userFileSequences := (userFileSequences w)(from_id msg \<mapsto>
                 \<lparr> files = [], startTime = clock w, lastActivity = clock w \<rparr>) \<rparr>) \<and>
      userFileSequences (snd (ssequence env msg w)) =
        (userFileSequences w)(from_id msg \<mapsto>
           \<lparr> files = [], startTime = clock w, lastActivity = clock w \<rparr>)) \<and>
   dom (userFileSequences (handle env lc w inp))
     \<subseteq> dom (userFileSequences w) \<union> (case inp of OnSsequence m \<Rightarrow> {from_id m} | _ \<Rightarrow> {})"
proof (intro conjI impI)
  assume "userFileSequences w (from_id msg) = Some ud"
  then show "ssequence env msg w = call env (Reply (AlreadyActive (length (files ud)))) w"
    and "userFileSequences (snd (ssequence env msg w)) = userFileSequences w"
    by (simp_all add: ssequence_def ssequence_sessions)
next
  assume "userFileSequences w (from_id msg) = None"
  then show "ssequence env msg w =
        call env (Reply (Started (MAX_FILES_PER_USER CONFIG)))
          (w\<lparr> userFileSequences := (userFileSequences w)(from_id msg \<mapsto>
                 \<lparr> files = [], startTime = clock w, lastActivity = clock w \<rparr>) \<rparr>)"
    and "userFileSequences (snd (ssequence env msg w)) =
        (userFileSequences w)(from_id msg \<mapsto>
           \<lparr> files = [], startTime = clock w, lastActivity = clock w \<rparr>)"
    by (simp_all add: ssequence_def ssequence_sessions)
next
  show "dom (userFileSequences (handle env lc w inp))
     \<subseteq> dom (userFileSequences w) \<union> (case inp of OnSsequence m \<Rightarrow> {from_id m} | _ \<Rightarrow> {})"
    by (rule handle_dom)
qed

theorem ssequence_one_session_witness:
  "userFileSequences (snd (ssequence (failingFirst 0) (commandMessage 1) startWorld)) =
     (userFileSequences startWorld)(1 \<mapsto> \<lparr> files = [], startTime = 0, lastActivity = 0 \<rparr>) \<and>
   userFileSequences (snd (ssequence (failingFirst 0) (commandMessage 1)
       (run (failingFirst 0) codeUnitCompare
          [OnSsequence (commandMessage 1), OnFile Document (documentMessage 1 ''a.mkv'')]))) =
     userFileSequences (run (failingFirst 0) codeUnitCompare
          [OnSsequence (commandMessage 1), OnFile Document (documentMessage 1 ''a.mkv'')])"
proof -
  let ?w = "run (failingFirst 0) codeUnitCompare
          [OnSsequence (commandMessage 1), OnFile Document (documentMessage 1 ''a.mkv'')]"
  have n: "userFileSequences startWorld (from_id (commandMessage 1)) = None"
    by (simp add: startWorld_def)
  have s: "userFileSequences ?w (from_id (commandMessage 1)) =
      Some \<lparr> files = [documentItem ''a.mkv''], startTime = 0, lastActivity = 0 \<rparr>"
    by (simp add: documentItem_def exec_defs)
  from ssequence_one_session[of startWorld "commandMessage 1" _ "failingFirst 0"] n
  have "userFileSequences (snd (ssequence (failingFirst 0) (commandMessage 1) startWorld)) =
     (userFileSequences startWorld)(from_id (commandMessage 1) \<mapsto>
        \<lparr> files = [], startTime = clock startWorld, lastActivity = clock startWorld \<rparr>)"
    by blast
  then have a: "userFileSequences (snd (ssequence (failingFirst 0) (commandMessage 1) startWorld)) =
     (userFileSequences startWorld)(1 \<mapsto> \<lparr> files = [], startTime = 0, lastActivity = 0 \<rparr>)"
    by (simp add: commandMessage_def startWorld_def)
  from ssequence_one_session[of ?w "commandMessage 1" _ "failingFirst 0"] s
  have "userFileSequences (snd (ssequence (failingFirst 0) (commandMessage 1) ?w)) =
     userFileSequences ?w"
    by blast
  with a show ?thesis by blast
qed

text \<open>
  Claim C9. A file sent to a session that holds \<^verbatim>\<open>MAX_FILES_PER_USER\<close> (200) items or more is
  answered by the text about the limit and nothing else: the store is unchanged. In every
  run of the bot, no session ever holds more than that many items.
\<close>

theorem ingest_capacity:
  "(userFileSequences w (from_id msg) = Some ud \<and> fileOf kind msg = Some f \<and>
    MAX_FILES_PER_USER CONFIG \<le> length (files ud) \<longrightarrow>
      processFileSequence env msg kind w =
        call env (Reply (LimitReached (MAX_FILES_PER_USER CONFIG))) w \<and>
      userFileSequences (snd (processFileSequence env msg kind w)) = userFileSequences w) \<and>
   MAX_FILES_PER_USER CONFIG = 200 \<and>
   (userFileSequences (run env lc inputs) u = Some ud' \<longrightarrow>
      length (files ud') \<le> MAX_FILES_PER_USER CONFIG)"
proof (intro conjI impI)
  assume a: "userFileSequences w (from_id msg) = Some ud \<and> fileOf kind msg = Some f \<and>
    MAX_FILES_PER_USER CONFIG \<le> length (files ud)"
  then show "processFileSequence env msg kind w =
        call env (Reply (LimitReached (MAX_FILES_PER_USER CONFIG))) w"
    by (simp add: processFileSequence_def)
  from a show "userFileSequences (snd (processFileSequence env msg kind w)) = userFileSequences w"
    by (simp add: processFileSequence_sessions)
next
  show "MAX_FILES_PER_USER CONFIG = 200" by (simp add: CONFIG_def)
next
  assume "userFileSequences (run env lc inputs) u = Some ud'"
  with run_storeOK[of env lc inputs] show "length (files ud') \<le> MAX_FILES_PER_USER CONFIG"
    by (simp add: storeOK_def)
qed

theorem ingest_capacity_witness:
  "processFileSequence (failingFirst 0) (documentMessage 1 ''b.mkv'') Document
     (startWorld\<lparr> userFileSequences :=
        [1 \<mapsto> \<lparr> files = replicate 200 (documentItem ''a.mkv''),
                 startTime = 0, lastActivity = 0 \<rparr>] \<rparr>) =
   call (failingFirst 0) (Reply (LimitReached 200))
     (startWorld\<lparr> userFileSequences :=
        [1 \<mapsto> \<lparr> files = replicate 200 (documentItem ''a.mkv''),
                 startTime = 0, lastActivity = 0 \<rparr>] \<rparr>)"
proof -
  let ?ud = "\<lparr> files = replicate 200 (documentItem ''a.mkv''), startTime = 0, lastActivity = 0 \<rparr>"
  let ?w = "startWorld\<lparr> userFileSequences := [1 \<mapsto> ?ud] \<rparr>"
  let ?f = "\<lparr> file_id = ''b.mkv'', file_name = Some ''b.mkv'', file_size = None \<rparr>"
  have h: "userFileSequences ?w (from_id (documentMessage 1 ''b.mkv'')) = Some ?ud \<and>
     fileOf Document (documentMessage 1 ''b.mkv'') = Some ?f \<and>
     MAX_FILES_PER_USER CONFIG \<le> length (files ?ud)"
    by (simp add: documentMessage_def fileOf_def CONFIG_def)
  from ingest_capacity[of ?w "documentMessage 1 ''b.mkv''" ?ud Document ?f "failingFirst 0"] h
  show ?thesis by (simp add: CONFIG_def)
qed

text \<open>
  Claim C10. In every batch the successes and the failures add up to the number of items.
  The error descriptions are as many as the failures less the items without media: such
  an item is counted as failed and not described, so for a batch made of one such item
  the count of failures is 1 and the list of descriptions is empty. The totals over the
  batches add up in the same way.
\<close>

theorem processBatch_tally:
  "success (fst (processBatch env batch k n w)) + failed (fst (processBatch env batch k n w))
     = length batch \<and>
   length (errors (fst (processBatch env batch k n w)))
     + length (filter (\<lambda>x. \<not> hasMedia x) batch) = failed (fst (processBatch env batch k n w)) \<and>
   (\<not> hasMedia x \<longrightarrow>
      fst (processBatch env [x] k n w) = \<lparr> success = 0, failed = 1, errors = [] \<rparr>) \<and>
   (processBatches env n k bs (s, f, es) w = (Inr (s', f', es'), w') \<longrightarrow>
      s' + f' = s + f + length (concat bs) \<and> length es' + f \<le> f' + length es)"
proof -
  have "\<not> hasMedia x \<longrightarrow> fst (processBatch env [x] k n w) = \<lparr> success = 0, failed = 1, errors = [] \<rparr>"
    by (simp add: hasMedia_def processBatch_def)
  moreover have "processBatches env n k bs (s, f, es) w = (Inr (s', f', es'), w') \<longrightarrow>
      s' + f' = s + f + length (concat bs) \<and> length es' + f \<le> f' + length es"
    using processBatches_counts by blast
  ultimately show ?thesis using processBatch_counts[of env batch k n w] by blast
qed

theorem processBatch_tally_witness:
  "fst (processBatch (failingFirst 0)
      [\<lparr> message = commandMessage 1, fileType = Document, fileName = ''none'',
         fileSize = 0, timestamp = 0 \<rparr>] 0 1 startWorld)
     = \<lparr> success = 0, failed = 1, errors = [] \<rparr>"
proof -
  let ?x = "\<lparr> message = commandMessage 1, fileType = Document, fileName = ''none'',
         fileSize = 0, timestamp = 0 \<rparr>"
  have h: "\<not> hasMedia ?x" by (simp add: hasMedia_def mediaOf_def commandMessage_def)
  from processBatch_tally[of "failingFirst 0" "[?x]" 0 1 startWorld ?x] h
  show ?thesis by blast
qed

end
